theory Spec2Isabelle
  imports Main "HOL-Library.Char_ord" "HOL-Library.List_Lexorder"
begin

section \<open>Shell-style pattern matching (Python's fnmatch on a POSIX host)\<close>

text \<open>
  \<^verbatim>\<open>scanner.py\<close> decides what to ignore with \<^verbatim>\<open>fnmatch.fnmatch(name, pattern)\<close>.
  On a POSIX host \<^verbatim>\<open>os.path.normcase\<close> is the identity, so the match is case
  sensitive and is the full match of the translated pattern: \<^verbatim>\<open>*\<close> is any run of
  characters (the separator \<^verbatim>\<open>/\<close> included), \<^verbatim>\<open>?\<close> is any one character,
  \<^verbatim>\<open>[seq]\<close> is a character set (\<^verbatim>\<open>[!seq]\<close> its complement) and every other
  character stands for itself. A \<^verbatim>\<open>[\<close> without a closing \<^verbatim>\<open>]\<close> is a literal.
  Strings are byte strings here; characters are compared by their code.
\<close>

datatype glob_item =
    Star
  | AnyChar
  | Lit char
  | CharSet bool "char list" "(char \<times> char) list"
    \<comment> \<open>negated?, the single characters, the ranges \<open>(lo, hi)\<close>\<close>

fun item_accepts :: "glob_item \<Rightarrow> char \<Rightarrow> bool" where
  "item_accepts Star c = True"
| "item_accepts AnyChar c = True"
| "item_accepts (Lit d) c = (c = d)"
| "item_accepts (CharSet neg singles ranges) c =
     (neg \<noteq> (c \<in> set singles \<or> list_ex (\<lambda>(lo, hi). lo \<le> c \<and> c \<le> hi) ranges))"

fun match_items :: "glob_item list \<Rightarrow> string \<Rightarrow> bool" where
  "match_items [] s = (s = [])"
| "match_items (Star # ts) [] = match_items ts []"
| "match_items (Star # ts) (c # cs) = (match_items ts (c # cs) \<or> match_items (Star # ts) cs)"
| "match_items (t # ts) [] = False"
| "match_items (t # ts) (c # cs) = (item_accepts t c \<and> match_items ts cs)"

text \<open>
  The text of a bracket expression: after the opening \<^verbatim>\<open>[\<close>, an optional \<^verbatim>\<open>!\<close>
  and an optional \<^verbatim>\<open>]\<close> are skipped, then the first \<^verbatim>\<open>]\<close> closes the set.
\<close>

fun split_at_close :: "string \<Rightarrow> (string \<times> string) option" where
  "split_at_close [] = None"
| "split_at_close (c # cs) =
     (if c = CHR '']'' then Some ([], cs)
      else (case split_at_close cs of
              None \<Rightarrow> None
            | Some (a, b) \<Rightarrow> Some (c # a, b)))"

definition bracket_body :: "string \<Rightarrow> (string \<times> string) option" where
  "bracket_body s =
     (let (p1, s1) = (case s of c # cs \<Rightarrow> if c = CHR ''!'' then ([c], cs) else ([], s) | [] \<Rightarrow> ([], s));
          (p2, s2) = (case s1 of c # cs \<Rightarrow> if c = CHR '']'' then ([c], cs) else ([], s1) | [] \<Rightarrow> ([], s1))
      in (case split_at_close s2 of
            None \<Rightarrow> None
          | Some (a, b) \<Rightarrow> Some (p1 @ p2 @ a, b)))"

text \<open>
  A set text with a hyphen is cut into chunks at the hyphens that denote ranges: the
  first hyphen is looked for after the first character of the set (after the second
  when the set starts with \<^verbatim>\<open>!\<close>), each later one at least two characters after the
  previous. Neighbouring chunks \<open>u\<close>, \<open>v\<close> denote the range from the last character
  of \<open>u\<close> to the first of \<open>v\<close>. A hyphen at the very end is a literal.
\<close>

fun chunks_from :: "nat \<Rightarrow> string \<Rightarrow> string \<Rightarrow> string list" where
  "chunks_from k cur [] = [cur]"
| "chunks_from k cur (c # cs) =
     (if k = 0 \<and> c = CHR ''-'' then cur # chunks_from 2 [] cs
      else chunks_from (k - 1) (cur @ [c]) cs)"

definition chunks_of :: "string \<Rightarrow> string list" where
  "chunks_of stuff =
     (let cs = chunks_from (if stuff \<noteq> [] \<and> hd stuff = CHR ''!'' then 2 else 1) [] stuff
      in if last cs = [] \<and> butlast cs \<noteq> []
         then butlast (butlast cs) @ [last (butlast cs) @ ''-'']
         else cs)"

text \<open>Ranges whose bounds are in the wrong order are removed, from the right.\<close>

fun drop_empty_ranges :: "string list \<Rightarrow> string list" where
  "drop_empty_ranges [] = []"
| "drop_empty_ranges (u # us) =
     (case drop_empty_ranges us of
        [] \<Rightarrow> [u]
      | v # vs \<Rightarrow>
          if u \<noteq> [] \<and> v \<noteq> [] \<and> last u > hd v then (butlast u @ tl v) # vs
          else u # v # vs)"

fun chunk_singles :: "bool \<Rightarrow> string list \<Rightarrow> char list" where
  "chunk_singles first [] = []"
| "chunk_singles first [u] = (if first then u else tl u)"
| "chunk_singles first (u # v # vs) =
     butlast (if first then u else tl u) @ chunk_singles False (v # vs)"

fun chunk_ranges :: "string list \<Rightarrow> (char \<times> char) list" where
  "chunk_ranges (u # v # vs) =
     (if u \<noteq> [] \<and> v \<noteq> [] then [(last u, hd v)] else []) @ chunk_ranges (v # vs)"
| "chunk_ranges us = []"

definition set_item :: "string \<Rightarrow> glob_item" where
  "set_item stuff =
     (let chunks = (if CHR ''-'' \<in> set stuff then drop_empty_ranges (chunks_of stuff)
                    else [stuff]);
          neg = (case chunks of (c # u) # us \<Rightarrow> c = CHR ''!'' | _ \<Rightarrow> False);
          chunks' = (case chunks of u # us \<Rightarrow> (if neg then tl u else u) # us | [] \<Rightarrow> [])
      in CharSet neg (chunk_singles True chunks') (chunk_ranges chunks'))"

function translate :: "string \<Rightarrow> glob_item list" where
  "translate [] = []"
| "translate (c # cs) =
     (if c = CHR ''*'' then Star # translate cs
      else if c = CHR ''?'' then AnyChar # translate cs
      else if c = CHR ''['' then
        (case bracket_body cs of
           None \<Rightarrow> Lit c # translate cs
         | Some (stuff, rest) \<Rightarrow> set_item stuff # translate rest)
      else Lit c # translate cs)"
  by pat_completeness auto
termination
proof (relation "measure length", goal_cases)
  case 1
  show ?case by simp
next
  case (2 c cs)
  show ?case by simp
next
  case (3 c cs)
  show ?case by simp
next
  case (4 c cs)
  show ?case by simp
next
  case (5 c cs stuff_rest stuff rest)
  have close: "length b < length s" if "split_at_close s = Some (a, b)" for s a b
    using that by (induction s arbitrary: a b) (auto split: if_splits option.splits)
  from 5 have "length rest < Suc (length cs)"
    by (auto simp: bracket_body_def Let_def split: list.splits if_splits option.splits
             dest!: close)
  then show ?case by simp
next
  case (6 c cs)
  show ?case by simp
qed

definition fnmatch :: "string \<Rightarrow> string \<Rightarrow> bool" where
  "fnmatch name pat = match_items (translate pat) name"

section \<open>Paths\<close>

text \<open>
  A path below the scan root is the list of its segments; the root itself is the empty
  list. \<^verbatim>\<open>str(path.relative_to(root_path))\<close> joins the segments with \<^verbatim>\<open>/\<close> and
  renders the empty relative path as \<^verbatim>\<open>.\<close>.
\<close>

fun join_path :: "string list \<Rightarrow> string" where
  "join_path [] = []"
| "join_path [s] = s"
| "join_path (s # t # ts) = s @ CHR ''/'' # join_path (t # ts)"

definition rel_str :: "string list \<Rightarrow> string" where
  "rel_str rel = (if rel = [] then ''.'' else join_path rel)"

text \<open>\<^verbatim>\<open>relative_path.parents\<close>: the proper prefixes, longest first, down to the empty path.\<close>

definition parents :: "string list \<Rightarrow> string list list" where
  "parents rel = map (\<lambda>k. take k rel) (rev [0..<length rel])"

text \<open>
  \<^verbatim>\<open>Path(s).parts\<close> on a POSIX host: the text is cut at \<^verbatim>\<open>/\<close>, empty segments and
  \<^verbatim>\<open>.\<close> segments are dropped, and a leading \<^verbatim>\<open>/\<close> is a part of its own.
\<close>

fun split_sep :: "string \<Rightarrow> string list" where
  "split_sep [] = [[]]"
| "split_sep (c # cs) =
     (if c = CHR ''/'' then [] # split_sep cs
      else (case split_sep cs of
              [] \<Rightarrow> [[c]]
            | u # us \<Rightarrow> (c # u) # us))"

definition path_parts :: "string \<Rightarrow> string list" where
  "path_parts s =
     (case s of c # cs \<Rightarrow> if c = CHR ''/'' then [''/''] else [] | [] \<Rightarrow> [])
     @ filter (\<lambda>seg. seg \<noteq> [] \<and> seg \<noteq> ''.'') (split_sep s)"

section \<open>The file system under the scan root\<close>

text \<open>
  What the scanner can observe of the file system: an entry that is not a directory,
  with the outcome of \<^verbatim>\<open>stat().st_size\<close>; a directory with its entries in the
  order \<^verbatim>\<open>iterdir()\<close> yields them; a directory whose listing raises; an entry
  that cannot be inspected, on which \<^verbatim>\<open>is_dir()\<close> raises. \<^verbatim>\<open>Path.is_dir()\<close>
  answers \<^verbatim>\<open>False\<close> where the entry does not exist (a broken link: its size query
  then raises \<^verbatim>\<open>FileNotFoundError\<close>); in the pathlib of Python 3.11 it raises every
  other error of the underlying \<^verbatim>\<open>stat\<close>, such as the \<^verbatim>\<open>PermissionError\<close> of a
  link into a closed directory. Under a pathlib whose \<^verbatim>\<open>is_dir()\<close> answers
  \<^verbatim>\<open>False\<close> there too, such an entry is a \<open>FileEntry\<close> whose size query raises.
  The tree is finite: links that form a cycle are outside this model.
\<close>

datatype oserror = PermissionError | FileNotFoundError | NotADirectoryError

datatype entry =
    FileEntry string "oserror + nat"
  | DirEntry string "entry list"
  | FailDir string oserror
  | Blocked string oserror

fun entry_name :: "entry \<Rightarrow> string" where
  "entry_name (FileEntry n st) = n"
| "entry_name (DirEntry n items) = n"
| "entry_name (FailDir n e) = n"
| "entry_name (Blocked n e) = n"

fun is_dir :: "entry \<Rightarrow> oserror + bool" where
  "is_dir (FileEntry n st) = Inr False"
| "is_dir (DirEntry n items) = Inr True"
| "is_dir (FailDir n e) = Inr True"
| "is_dir (Blocked n e) = Inl e"

section \<open>The matcher: should-ignore\<close>

definition path_str :: "string list \<Rightarrow> string" where
  "path_str rel = map (\<lambda>c. if c = CHR 0x5C then CHR ''/'' else c) (rel_str rel)"

definition endswith_slash :: "string \<Rightarrow> bool" where
  "endswith_slash pat = (pat \<noteq> [] \<and> last pat = CHR ''/'')"

text \<open>
  The body of the loop over the patterns, for one pattern: \<open>Inr True\<close> where the body
  returns \<^verbatim>\<open>True\<close>, \<open>Inr False\<close> where the loop goes on, \<open>Inl e\<close> where
  \<^verbatim>\<open>path.is_dir()\<close> raises. For a pattern that ends in \<^verbatim>\<open>/\<close> and does not match the
  relative path, \<^verbatim>\<open>path.is_dir()\<close> is called before the parents and the name are looked
  at.
\<close>

definition pattern_ignores :: "entry \<Rightarrow> string list \<Rightarrow> string \<Rightarrow> oserror + bool" where
  "pattern_ignores path rel pattern =
     (if fnmatch (path_str rel) pattern then Inr True
      else if endswith_slash pattern then
        (case is_dir path of
           Inl e \<Rightarrow> Inl e
         | Inr d \<Rightarrow>
             Inr ((d \<and> fnmatch (entry_name path) (butlast pattern))
                  \<or> list_ex (\<lambda>parent. fnmatch (rel_str parent @ ''/'') pattern) (parents rel)
                  \<or> fnmatch (entry_name path) pattern))
      else Inr (fnmatch (entry_name path) pattern))"

text \<open>
  The pattern set is given as the list of its members in the order in which the loop
  visits them: Python does not fix the order of a set, and the outcome depends on it
  where \<^verbatim>\<open>path.is_dir()\<close> raises for one pattern and another pattern matches.
\<close>

fun should_ignore :: "entry \<Rightarrow> string list \<Rightarrow> string list \<Rightarrow> oserror + bool" where
  "should_ignore path rel [] = Inr False"
| "should_ignore path rel (pattern # patterns) =
     (case pattern_ignores path rel pattern of
        Inl e \<Rightarrow> Inl e
      | Inr hit \<Rightarrow> if hit then Inr True else should_ignore path rel patterns)"

section \<open>The tree builder: scan-directory\<close>

datatype node =
    File string string nat
  | Directory string string "node list" "string option"

text \<open>
  The \<^verbatim>\<open>try\<close> block of \<^verbatim>\<open>scan_directory\<close>: \<open>scan_items\<close> is the loop over the
  sorted listing; it returns the children appended so far and the exception that ended
  it, if any, be it raised by \<^verbatim>\<open>should_ignore\<close>, by \<^verbatim>\<open>item.is_dir()\<close>, by the
  size query or by the scan of a subdirectory. \<^verbatim>\<open>except PermissionError\<close> keeps the
  structure and marks it (\<open>finish\<close>); any other exception leaves the function. The
  listing is complete before the loop starts (\<^verbatim>\<open>sorted\<close> consumes it), so a listing
  that raises leaves no children; the listing of an entry that cannot be inspected
  raises as its inspection does. In the loop an entry for which \<^verbatim>\<open>is_dir()\<close> answers
  \<^verbatim>\<open>False\<close> is a \<open>FileEntry\<close>, so the last case of \<open>scan_items\<close> does not occur.
\<close>

definition finish :: "string \<Rightarrow> string list \<Rightarrow> node list \<times> oserror option \<Rightarrow> oserror + node" where
  "finish name rel r =
     (case r of
        (children, None) \<Rightarrow> Inr (Directory name (rel_str rel) children None)
      | (children, Some e) \<Rightarrow>
          if e = PermissionError
          then Inr (Directory name (rel_str rel) children (Some ''Permission denied''))
          else Inl e)"

function scan_directory :: "entry \<Rightarrow> string list \<Rightarrow> string list \<Rightarrow> oserror + node"
  and scan_items :: "entry list \<Rightarrow> string list \<Rightarrow> string list \<Rightarrow> node list \<times> oserror option"
where
  "scan_directory (FileEntry n st) rel patterns = Inl NotADirectoryError"
| "scan_directory (FailDir n e) rel patterns = finish n rel ([], Some e)"
| "scan_directory (Blocked n e) rel patterns = finish n rel ([], Some e)"
| "scan_directory (DirEntry n items) rel patterns =
     finish n rel (scan_items (sort_key entry_name items) rel patterns)"
| "scan_items [] rel patterns = ([], None)"
| "scan_items (item # rest) rel patterns =
     (case should_ignore item (rel @ [entry_name item]) patterns of
        Inl e \<Rightarrow> ([], Some e)
      | Inr ignored \<Rightarrow>
          if ignored then scan_items rest rel patterns
          else
            (case is_dir item of
               Inl e \<Rightarrow> ([], Some e)
             | Inr d \<Rightarrow>
                 if d then
                   (case scan_directory item (rel @ [entry_name item]) patterns of
                      Inl e \<Rightarrow> ([], Some e)
                    | Inr child \<Rightarrow>
                        (case scan_items rest rel patterns of
                           (children, ex) \<Rightarrow> (child # children, ex)))
                 else
                   (case item of
                      FileEntry n st \<Rightarrow>
                        (case st of
                           Inl e \<Rightarrow> ([], Some e)
                         | Inr sz \<Rightarrow>
                             (case scan_items rest rel patterns of
                                (children, ex) \<Rightarrow>
                                  (File n (rel_str (rel @ [entry_name item])) sz # children, ex)))
                    | _ \<Rightarrow> ([], Some NotADirectoryError))))"
  by pat_completeness auto
termination
proof (relation "measure (\<lambda>x. case x of Inl (e, rel, ps) \<Rightarrow> size e
                                        | Inr (es, rel, ps) \<Rightarrow> size_list size es)", goal_cases)
  case 1
  show ?case by simp
next
  case (2 n items rel patterns)
  have ins: "size_list f (insort_key k x xs) = size_list f (x # xs)"
    for f :: "entry \<Rightarrow> nat" and k :: "entry \<Rightarrow> string" and x xs
    by (induction xs) auto
  have "size_list f (sort_key k xs) = size_list f xs"
    for f :: "entry \<Rightarrow> nat" and k :: "entry \<Rightarrow> string" and xs
    by (induction xs) (auto simp: ins)
  then show ?case by simp
qed simp_all

text \<open>
  \<^verbatim>\<open>scan\<close> starts the walk at the root, with the patterns that \<^verbatim>\<open>load_dirignore\<close>
  has read; the patterns are a parameter here.
\<close>

definition scan :: "entry \<Rightarrow> string list \<Rightarrow> oserror + node" where
  "scan root patterns = scan_directory root [] patterns"

section \<open>The statistics: get-stats\<close>

text \<open>
  \<^verbatim>\<open>os.path.splitext\<close> on a POSIX host: the extension starts at the last dot after
  the last \<^verbatim>\<open>/\<close>, provided some character between that \<^verbatim>\<open>/\<close> and the dot is
  not a dot (leading dots do not start an extension). \<^verbatim>\<open>rfind\<close> is the index of
  the last occurrence, or \<open>-1\<close>.
\<close>

definition rfind :: "char \<Rightarrow> string \<Rightarrow> int" where
  "rfind c s =
     (if c \<in> set s
      then int (length s) - 1 - int (length (takeWhile (\<lambda>x. x \<noteq> c) (rev s)))
      else - 1)"

definition splitext :: "string \<Rightarrow> string \<times> string" where
  "splitext p =
     (let sepIndex = rfind (CHR ''/'') p;
          dotIndex = rfind (CHR ''.'') p
      in if dotIndex > sepIndex
            \<and> list_ex (\<lambda>c. c \<noteq> CHR ''.'')
                 (take (nat (dotIndex - (sepIndex + 1))) (drop (nat (sepIndex + 1)) p))
         then (take (nat dotIndex) p, drop (nat dotIndex) p)
         else (p, []))"

record stats =
  files :: nat
  directories :: nat
  total_size :: nat
  extensions :: "string \<rightharpoonup> nat"
  size_by_ext :: "string \<rightharpoonup> nat"
  largest_files :: "(string \<times> nat) list"
  max_depth :: nat

text \<open>\<^verbatim>\<open>d.get(k, 0)\<close>\<close>

definition get0 :: "(string \<rightharpoonup> nat) \<Rightarrow> string \<Rightarrow> nat" where
  "get0 d k = (case d k of None \<Rightarrow> 0 | Some v \<Rightarrow> v)"

text \<open>
  \<^verbatim>\<open>list.sort(key=lambda x: x[1], reverse=True)\<close> is a stable sort by descending
  size: entries of equal size keep their order.
\<close>

definition sort_by_size_desc :: "(string \<times> nat) list \<Rightarrow> (string \<times> nat) list" where
  "sort_by_size_desc xs = sort_key (\<lambda>x. - int (snd x)) xs"

text \<open>
  \<^verbatim>\<open>count_items\<close>, the inner function of \<^verbatim>\<open>get_stats\<close>. The lowering of a text,
  \<^verbatim>\<open>str.lower\<close>, is the parameter \<open>lower\<close>: its table of cased characters is not
  part of the program.
\<close>

fun count_items :: "(string \<Rightarrow> string) \<Rightarrow> node \<Rightarrow> stats \<Rightarrow> stats" where
  "count_items lower (File name path sz) stats =
     (let stats = stats\<lparr>files := files stats + 1\<rparr>;
          stats = stats\<lparr>total_size := total_size stats + sz\<rparr>;
          ext = lower (snd (splitext name));
          stats = (if ext \<noteq> []
                   then stats\<lparr>extensions := (extensions stats)(ext \<mapsto> get0 (extensions stats) ext + 1),
                              size_by_ext := (size_by_ext stats)(ext \<mapsto> get0 (size_by_ext stats) ext + sz)\<rparr>
                   else stats);
          stats = stats\<lparr>largest_files := largest_files stats @ [(path, sz)]\<rparr>;
          stats = stats\<lparr>largest_files := sort_by_size_desc (largest_files stats)\<rparr>;
          stats = stats\<lparr>largest_files := take 10 (largest_files stats)\<rparr>
      in stats)"
| "count_items lower (Directory name path children err) stats =
     (let stats = stats\<lparr>directories := directories stats + 1\<rparr>;
          depth = length (path_parts path);
          stats = stats\<lparr>max_depth := max (max_depth stats) depth\<rparr>
      in fold (count_items lower) children stats)"

definition initial_stats :: stats where
  "initial_stats =
     \<lparr>files = 0, directories = 0, total_size = 0, extensions = Map.empty,
      size_by_ext = Map.empty, largest_files = [], max_depth = 0\<rparr>"

definition get_stats :: "(string \<Rightarrow> string) \<Rightarrow> node \<Rightarrow> stats" where
  "get_stats lower structure = count_items lower structure initial_stats"

section \<open>Notions used to state the properties\<close>

text \<open>
  \<^verbatim>\<open>str.lower\<close> on texts of ASCII characters, where it replaces the letters A to Z
  by a to z (the code of the letter plus 32, which sets bit 5 of the byte). It stands
  for the parameter \<open>lower\<close> in the closed examples, whose names are ASCII texts.
\<close>

definition lower_char :: "char \<Rightarrow> char" where
  "lower_char c =
     (if CHR ''A'' \<le> c \<and> c \<le> CHR ''Z''
      then (case c of Char b0 b1 b2 b3 b4 b5 b6 b7 \<Rightarrow> Char b0 b1 b2 b3 b4 True b6 b7)
      else c)"

definition ascii_lower :: "string \<Rightarrow> string" where
  "ascii_lower s = map lower_char s"

text \<open>
  The scenario of the specification. The root holds \<^verbatim>\<open>a.txt\<close> (10 bytes), the directory \<^verbatim>\<open>b\<close> with \<^verbatim>\<open>c.txt\<close>
  (20 bytes) and the empty directory \<^verbatim>\<open>d\<close>; the only pattern is \<^verbatim>\<open>b/\<close>.
\<close>

definition scenario_root :: entry where
  "scenario_root =
     DirEntry ''proj''
       [FileEntry ''a.txt'' (Inr 10),
        DirEntry ''b'' [FileEntry ''c.txt'' (Inr 20)],
        DirEntry ''d'' []]"

text \<open>The tree that the scan builds on the scenario.\<close>

definition scenario_tree :: node where
  "scenario_tree =
     Directory ''proj'' ''.''
       [File ''a.txt'' ''a.txt'' 10, Directory ''d'' ''d'' [] None] None"

text \<open>
  The aggregation visits the nodes of a tree in pre-order: \<open>count_items\<close> handles a
  node and then its children, from left to right, with the statistics that the nodes
  before have left. \<open>visit\<close> is what \<open>count_items\<close> does for the node itself.
\<close>

fun preorder :: "node \<Rightarrow> node list" where
  "preorder (File name path sz) = [File name path sz]"
| "preorder (Directory name path children err) =
     Directory name path children err # concat (map preorder children)"

fun visit :: "(string \<Rightarrow> string) \<Rightarrow> node \<Rightarrow> stats \<Rightarrow> stats" where
  "visit lower (File name path sz) stats = count_items lower (File name path sz) stats"
| "visit lower (Directory name path children err) stats =
     count_items lower (Directory name path [] err) stats"

text \<open>
The numbers of File nodes, of Directory nodes and of all nodes of a tree.
\<close>

fun file_count :: "node \<Rightarrow> nat" where
  "file_count (File name path sz) = 1"
| "file_count (Directory name path children err) = sum_list (map file_count children)"

fun directory_count :: "node \<Rightarrow> nat" where
  "directory_count (File name path sz) = 0"
| "directory_count (Directory name path children err) = 1 + sum_list (map directory_count children)"

fun node_count :: "node \<Rightarrow> nat" where
  "node_count (File name path sz) = 1"
| "node_count (Directory name path children err) = 1 + sum_list (map node_count children)"

text \<open>
  The statistics after the nodes \<open>xs\<close> have been visited, starting from the initial
  statistics, and the \<open>(path, size)\<close> entries of the File nodes among \<open>xs\<close>.
\<close>

definition visited :: "(string \<Rightarrow> string) \<Rightarrow> node list \<Rightarrow> stats" where
  "visited lower xs = fold (visit lower) xs initial_stats"

fun file_pairs :: "node list \<Rightarrow> (string \<times> nat) list" where
  "file_pairs [] = []"
| "file_pairs (File name path sz # xs) = (path, sz) # file_pairs xs"
| "file_pairs (Directory name path children err # xs) = file_pairs xs"

text \<open>
  The place of a new entry in a list sorted by descending size: behind every entry of
  at least its size, before the first smaller one.
\<close>

fun insert_by_size :: "string \<times> nat \<Rightarrow> (string \<times> nat) list \<Rightarrow> (string \<times> nat) list" where
  "insert_by_size x [] = [x]"
| "insert_by_size x (y # ys) =
     (if snd x \<le> snd y then y # insert_by_size x ys else x # y # ys)"

text \<open>
  The extension of a base name before it is lowered, in the words of the
  specification as amended: the text from the last dot on when some character before
  that dot is not a dot; empty otherwise.
\<close>

definition last_dot_suffix :: "string \<Rightarrow> string" where
  "last_dot_suffix name =
     (if CHR ''.'' \<in> set name
      then CHR ''.'' # rev (takeWhile (\<lambda>c. c \<noteq> CHR ''.'') (rev name))
      else [])"

definition raw_extension :: "string \<Rightarrow> string" where
  "raw_extension name =
     (if list_ex (\<lambda>c. c \<noteq> CHR ''.'') (take (length name - length (last_dot_suffix name)) name)
      then last_dot_suffix name
      else [])"

text \<open>
  The names that a file system gives its entries: not empty, without \<^verbatim>\<open>/\<close>, and
  not \<^verbatim>\<open>.\<close>. \<open>names_ok\<close> asks this of every entry below the given one (the name of
  the scan root itself is not constrained).
\<close>

definition valid_name :: "string \<Rightarrow> bool" where
  "valid_name n = (n \<noteq> [] \<and> CHR ''/'' \<notin> set n \<and> n \<noteq> ''.'')"

fun names_ok :: "entry \<Rightarrow> bool" where
  "names_ok (DirEntry n items) = list_all (\<lambda>i. valid_name (entry_name i) \<and> names_ok i) items"
| "names_ok (FileEntry n st) = True"
| "names_ok (FailDir n e) = True"
| "names_ok (Blocked n e) = True"

text \<open>
  The Directory nodes of a tree, each with its path field and with the names that lead
  to it from the root of the scan, which are the segments of its root-relative path.
\<close>

fun node_name :: "node \<Rightarrow> string" where
  "node_name (File name path sz) = name"
| "node_name (Directory name path children err) = name"

fun dir_paths :: "string list \<Rightarrow> node \<Rightarrow> (string \<times> string list) list" where
  "dir_paths rel (File name path sz) = []"
| "dir_paths rel (Directory name path children err) =
     (path, rel) # concat (map (\<lambda>c. dir_paths (rel @ [node_name c]) c) children)"

text \<open>
  The largest depth that the aggregation computes for a Directory node of the tree, and
  the trees whose Directory nodes carry the text of their relative path.
\<close>

fun deepest :: "node \<Rightarrow> nat" where
  "deepest (File name path sz) = 0"
| "deepest (Directory name path children err) =
     max (length (path_parts path)) (foldr max (map deepest children) 0)"

definition paths_ok :: "string list \<Rightarrow> node \<Rightarrow> bool" where
  "paths_ok rel t = list_all (\<lambda>(p, segs). p = rel_str segs \<and> list_all valid_name segs) (dir_paths rel t)"

text \<open>
  The file systems under which nothing fails but for denied permissions: no size query,
  no inspection of an entry and no listing raises another error.
\<close>

fun recoverable :: "entry \<Rightarrow> bool" where
  "recoverable (FileEntry n st) = (case st of Inl e \<Rightarrow> e = PermissionError | Inr sz \<Rightarrow> True)"
| "recoverable (FailDir n e) = (e = PermissionError)"
| "recoverable (Blocked n e) = (e = PermissionError)"
| "recoverable (DirEntry n items) = list_all recoverable items"

text \<open>
The node with another name.
\<close>

fun rename :: "string \<Rightarrow> node \<Rightarrow> node" where
  "rename n (File name path sz) = File n path sz"
| "rename n (Directory name path children err) = Directory n path children err"

text \<open>
  The file system in which every directory whose listing is denied is empty instead, and
  the tree without its error markers.
\<close>

fun strip_denied :: "entry \<Rightarrow> entry" where
  "strip_denied (FileEntry n st) = FileEntry n st"
| "strip_denied (DirEntry n items) = DirEntry n (map strip_denied items)"
| "strip_denied (FailDir n e) = (if e = PermissionError then DirEntry n [] else FailDir n e)"
| "strip_denied (Blocked n e) = Blocked n e"

fun erase_errors :: "node \<Rightarrow> node" where
  "erase_errors (File name path sz) = File name path sz"
| "erase_errors (Directory name path children err) =
     Directory name path (map erase_errors children) None"

text \<open>
The \<open>(path, size)\<close> entries of the File nodes of a tree, from left to right.
\<close>

fun tree_files :: "node \<Rightarrow> (string \<times> nat) list" where
  "tree_files (File name path sz) = [(path, sz)]"
| "tree_files (Directory name path children err) = concat (map tree_files children)"

text \<open>
  The files that a scan is expected to report, with their root-relative paths and sizes,
  in the order of the walk: the entries of a directory are taken in the order of their
  names; only an entry for which the matcher answers that it is not ignored
  contributes, a file itself and a directory its own kept files; a directory that
  cannot be listed and an entry that cannot be inspected contribute nothing.
\<close>

function kept_files :: "entry \<Rightarrow> string list \<Rightarrow> string list \<Rightarrow> (string list \<times> nat) list"
  and kept_items :: "entry list \<Rightarrow> string list \<Rightarrow> string list \<Rightarrow> (string list \<times> nat) list"
where
  "kept_files (FileEntry n st) rel patterns = []"
| "kept_files (FailDir n e) rel patterns = []"
| "kept_files (Blocked n e) rel patterns = []"
| "kept_files (DirEntry n items) rel patterns =
     kept_items (sort_key entry_name items) rel patterns"
| "kept_items [] rel patterns = []"
| "kept_items (item # rest) rel patterns =
     (if should_ignore item (rel @ [entry_name item]) patterns = Inr False
      then (case item of
              FileEntry m st \<Rightarrow> (case st of Inl e \<Rightarrow> [] | Inr sz \<Rightarrow> [(rel @ [m], sz)])
            | DirEntry m sub \<Rightarrow> kept_files item (rel @ [entry_name item]) patterns
            | FailDir m e \<Rightarrow> []
            | Blocked m e \<Rightarrow> [])
      else [])
     @ kept_items rest rel patterns"
  by pat_completeness auto

termination
proof (relation "measure (\<lambda>x. case x of Inl (e, rel, ps) \<Rightarrow> size e
                                        | Inr (es, rel, ps) \<Rightarrow> size_list size es)", goal_cases)
  case 1
  show ?case by simp
next
  case (2 n items rel patterns)
  have ins: "size_list f (insort_key k x xs) = size_list f (x # xs)"
    for f :: "entry \<Rightarrow> nat" and k :: "entry \<Rightarrow> string" and x xs
    by (induction xs) auto
  have "size_list f (sort_key k xs) = size_list f xs"
    for f :: "entry \<Rightarrow> nat" and k :: "entry \<Rightarrow> string" and xs
    by (induction xs) (auto simp: ins)
  then show ?case by simp
qed simp_all

text \<open>
  The file systems in which every entry can be inspected and the size query of every
  file succeeds, and those in which the entries of each directory have different names.
\<close>

fun sizes_known :: "entry \<Rightarrow> bool" where
  "sizes_known (FileEntry n st) = (case st of Inl e \<Rightarrow> False | Inr sz \<Rightarrow> True)"
| "sizes_known (DirEntry n items) = list_all sizes_known items"
| "sizes_known (FailDir n e) = True"
| "sizes_known (Blocked n e) = False"

fun siblings_distinct :: "entry \<Rightarrow> bool" where
  "siblings_distinct (DirEntry n items) =
     (distinct (map entry_name items) \<and> list_all siblings_distinct items)"
| "siblings_distinct (FileEntry n st) = True"
| "siblings_distinct (FailDir n e) = True"
| "siblings_distinct (Blocked n e) = True"

text \<open>
A kept file as the tree shows it: the text of its path, and its size.
\<close>

definition as_text :: "string list \<times> nat \<Rightarrow> string \<times> nat" where
  "as_text f = (rel_str (fst f), snd f)"

section \<open>Unfolding rules for evaluation\<close>

lemmas scanner_defs =
  scan_def pattern_ignores_def fnmatch_def finish_def path_str_def
  rel_str_def endswith_slash_def parents_def bracket_body_def

lemmas stats_defs =
  get_stats_def initial_stats_def splitext_def rfind_def ascii_lower_def lower_char_def
  get0_def sort_by_size_desc_def path_parts_def Let_def

section \<open>The scenario of the specification\<close>

lemma scenario_scan: "scan scenario_root [''b/''] = Inr scenario_tree"
  by (simp add: scenario_root_def scenario_tree_def scanner_defs)

text \<open>
  Claim C1, as amended: on the scenario the scan succeeds and aggregating the built
  tree yields one file, two directories (the root and \<^verbatim>\<open>d\<close>), a total size of 10
  and a maximal depth of 1: the root's relative path \<^verbatim>\<open>.\<close> has no parts, and
  \<^verbatim>\<open>d\<close> has one. None of the four depends on how texts are lowered.
\<close>

theorem C1_scenario_stats:
  "scan scenario_root [''b/''] = Inr scenario_tree
   \<and> files (get_stats lower scenario_tree) = 1
   \<and> directories (get_stats lower scenario_tree) = 2
   \<and> total_size (get_stats lower scenario_tree) = 10
   \<and> max_depth (get_stats lower scenario_tree) = 1"
  by (simp add: scenario_scan) (simp add: scenario_tree_def stats_defs)

text \<open>
  Claim C1, as stated, expects a maximal depth of 2 on the scenario; the code yields 1.
\<close>

theorem C1_counterexample:
  "scan scenario_root [''b/''] = Inr scenario_tree
   \<and> max_depth (get_stats ascii_lower scenario_tree) \<noteq> 2"
  by (simp add: scenario_scan) (simp add: scenario_tree_def stats_defs)

section \<open>Aggregation as a pass over the pre-order\<close>

lemma fold_concat_map:
  "fold f (concat (map g xs)) s = fold (\<lambda>x. fold f (g x)) xs s"
  by (induction xs arbitrary: s) auto

lemma count_items_preorder: "count_items lower t st = fold (visit lower) (preorder t) st"
proof (induction t arbitrary: st)
  case (File name path sz)
  show ?case by simp
next
  case (Directory name path children err)
  have "fold (count_items lower) children s
        = fold (\<lambda>x. fold (visit lower) (preorder x)) children s" for s
    using Directory.IH by (intro fold_cong) auto
  then show ?case by (simp add: fold_concat_map Let_def)
qed

section \<open>Counts of files and directories\<close>

lemma fold_counts:
  fixes f :: "stats \<Rightarrow> nat"
  assumes "\<And>c s. c \<in> set cs \<Longrightarrow> f (count_items lower c s) = f s + g c"
  shows "f (fold (count_items lower) cs st) = f st + sum_list (map g cs)"
  using assms by (induction cs arbitrary: st) auto

lemma files_count_items: "files (count_items lower t st) = files st + file_count t"
proof (induction t arbitrary: st)
  case (File name path sz)
  show ?case by (simp add: Let_def)
next
  case (Directory name path children err)
  show ?case
    by (simp add: Let_def fold_counts [where g = file_count, OF Directory.IH])
qed

lemma directories_count_items:
  "directories (count_items lower t st) = directories st + directory_count t"
proof (induction t arbitrary: st)
  case (File name path sz)
  show ?case by (simp add: Let_def)
next
  case (Directory name path children err)
  show ?case
    by (simp add: Let_def fold_counts [where g = directory_count, OF Directory.IH])
qed

lemma node_count_split: "node_count t = file_count t + directory_count t"
proof (induction t)
  case (File name path sz)
  show ?case by simp
next
  case (Directory name path children err)
  then have eq: "map node_count children = map (\<lambda>c. file_count c + directory_count c) children"
    by simp
  show ?case by (simp add: eq sum_list_addf)
qed

text \<open>
  Claim C10: aggregation counts every node of the tree once, a File node as a file
  and a Directory node as a directory: \<open>files\<close> is the number of File nodes,
  \<open>directories\<close> the number of Directory nodes, and their sum the number of nodes.
\<close>

theorem C10_each_node_counted_once:
  "files (get_stats lower t) = file_count t
   \<and> directories (get_stats lower t) = directory_count t
   \<and> files (get_stats lower t) + directories (get_stats lower t) = node_count t"
  by (simp add: get_stats_def initial_stats_def files_count_items directories_count_items
      node_count_split)

section \<open>The list of the largest files\<close>

lemma insort_insert_by_size:
  "insort_key (\<lambda>x. - int (snd x)) y (insert_by_size x zs)
   = insert_by_size x (insort_key (\<lambda>x. - int (snd x)) y zs)"
  by (induction zs) auto

lemma sort_snoc: "sort_by_size_desc (xs @ [x]) = insert_by_size x (sort_by_size_desc xs)"
  unfolding sort_by_size_desc_def
  by (induction xs) (auto simp: insort_insert_by_size)

lemma take_insert_take:
  "take n (insert_by_size x (take n zs)) = take n (insert_by_size x zs)"
proof (induction zs arbitrary: n)
  case Nil
  show ?case by simp
next
  case (Cons z zs)
  show ?case
  proof (cases n)
    case 0
    then show ?thesis by simp
  next
    case (Suc m)
    have "take m (z # take m zs) = take m (z # zs)"
      by (cases m) auto
    with Suc Cons.IH [of m] show ?thesis by simp
  qed
qed

lemma sorted_sort_by_size: "sorted (map (\<lambda>x. - int (snd x)) (sort_by_size_desc xs))"
  by (simp add: sort_by_size_desc_def)

lemma sort_by_size_id:
  "sorted (map (\<lambda>x. - int (snd x)) xs) \<Longrightarrow> sort_by_size_desc xs = xs"
  by (simp add: sort_by_size_desc_def sort_key_id_if_sorted)

lemma top10_step:
  "take 10 (sort_by_size_desc (take 10 (sort_by_size_desc xs) @ [x]))
   = take 10 (sort_by_size_desc (xs @ [x]))"
proof -
  have "sorted (map (\<lambda>x. - int (snd x)) (take 10 (sort_by_size_desc xs)))"
    using sorted_sort_by_size [of xs] by (simp add: take_map [symmetric] sorted_wrt_take)
  then have "sort_by_size_desc (take 10 (sort_by_size_desc xs)) = take 10 (sort_by_size_desc xs)"
    by (rule sort_by_size_id)
  then show ?thesis by (simp add: sort_snoc take_insert_take)
qed

lemma largest_files_visit_File:
  "largest_files (visit lower (File name path sz) st)
   = take 10 (sort_by_size_desc (largest_files st @ [(path, sz)]))"
  by (simp add: Let_def)

lemma largest_files_visit_Directory:
  "largest_files (visit lower (Directory name path children err) st) = largest_files st"
  by (simp add: Let_def)

lemma file_pairs_snoc_File: "file_pairs (xs @ [File name path sz]) = file_pairs xs @ [(path, sz)]"
  by (induction xs rule: file_pairs.induct) auto

lemma file_pairs_snoc_Directory:
  "file_pairs (xs @ [Directory name path children err]) = file_pairs xs"
  by (induction xs rule: file_pairs.induct) auto

lemma largest_files_visited:
  "largest_files (visited lower xs) = take 10 (sort_by_size_desc (file_pairs xs))"
proof (induction xs rule: rev_induct)
  case Nil
  show ?case by (simp add: visited_def initial_stats_def sort_by_size_desc_def)
next
  case (snoc x xs)
  show ?case
  proof (cases x)
    case (File name path sz)
    have "largest_files (visited lower (xs @ [x]))
          = take 10 (sort_by_size_desc (largest_files (visited lower xs) @ [(path, sz)]))"
      unfolding visited_def File fold_append comp_def fold_simps
      by (rule largest_files_visit_File)
    then show ?thesis
      by (simp add: snoc.IH top10_step File file_pairs_snoc_File)
  next
    case (Directory name path children err)
    have "largest_files (visited lower (xs @ [x])) = largest_files (visited lower xs)"
      unfolding visited_def Directory fold_append comp_def fold_simps
      by (rule largest_files_visit_Directory)
    then show ?thesis by (simp add: snoc.IH Directory file_pairs_snoc_Directory)
  qed
qed

lemma sorted_desc_iff:
  "sorted (map (\<lambda>x. - int (snd x)) xs) = sorted_wrt (\<lambda>a b. snd b \<le> snd a) (xs :: (string \<times> nat) list)"
  by (induction xs) auto

lemma filter_take_prefix:
  "filter P (take n xs) = take (length (filter P (take n xs))) (filter P xs)"
proof (induction xs arbitrary: n)
  case Nil
  show ?case by simp
next
  case (Cons x xs)
  show ?case
  proof (cases n)
    case 0
    then show ?thesis by simp
  next
    case (Suc m)
    with Cons.IH [of m] show ?thesis by simp
  qed
qed

lemma filter_size_sort:
  "filter (\<lambda>x. snd x = s) (sort_by_size_desc xs) = filter (\<lambda>x. snd x = s) xs"
proof -
  have "filter (\<lambda>y. - int (snd y) = - int s) (sort_key (\<lambda>x. - int (snd x)) xs)
        = filter (\<lambda>y. - int (snd y) = - int s) xs"
    by (rule sort_key_stable)
  then show ?thesis by (simp add: sort_by_size_desc_def)
qed

text \<open>
  Claim C7: the states that the aggregation of a tree goes through are the states
  \<open>visited xs\<close> for the prefixes \<open>xs\<close> of its pre-order, the last one being the result.
  In every such state \<open>largest_files\<close> has at most 10 entries and is sorted by
  descending size; visiting a File node puts its entry behind every entry of at least
  its size and keeps the first 10; the list is the first 10 entries of the stable
  descending sort of all files visited, so among the files of one size the list holds
  the earliest visited, in the order of their visit.
\<close>

theorem C7_largest_files_invariant:
  "length (largest_files (visited lower xs)) \<le> 10
   \<and> sorted_wrt (\<lambda>a b. snd b \<le> snd a) (largest_files (visited lower xs))
   \<and> largest_files (visited lower (xs @ [File name path sz]))
       = take 10 (insert_by_size (path, sz) (largest_files (visited lower xs)))
   \<and> largest_files (visited lower xs) = take 10 (sort_by_size_desc (file_pairs xs))
   \<and> filter (\<lambda>x. snd x = s) (largest_files (visited lower xs))
       = take (length (filter (\<lambda>x. snd x = s) (largest_files (visited lower xs))))
           (filter (\<lambda>x. snd x = s) (file_pairs xs))
   \<and> get_stats lower t = visited lower (preorder t)"
proof -
  let ?lf = "largest_files (visited lower xs)"
  have eq: "?lf = take 10 (sort_by_size_desc (file_pairs xs))"
    by (rule largest_files_visited)
  have len: "length ?lf \<le> 10"
    by (simp add: eq)
  have "sorted (map (\<lambda>x. - int (snd x)) ?lf)"
    unfolding eq using sorted_sort_by_size [of "file_pairs xs"]
    by (simp add: take_map [symmetric] sorted_wrt_take)
  then have srt: "sorted_wrt (\<lambda>a b. snd b \<le> snd a) ?lf"
    by (simp add: sorted_desc_iff)
  have step: "largest_files (visited lower (xs @ [File name path sz]))
              = take 10 (insert_by_size (path, sz) ?lf)"
    by (simp add: largest_files_visited file_pairs_snoc_File sort_snoc take_insert_take)
  have ties: "filter (\<lambda>x. snd x = s) ?lf
              = take (length (filter (\<lambda>x. snd x = s) ?lf)) (filter (\<lambda>x. snd x = s) (file_pairs xs))"
    using filter_take_prefix [of "\<lambda>x. snd x = s" 10 "sort_by_size_desc (file_pairs xs)"]
    by (simp add: eq filter_size_sort)
  have "get_stats lower t = visited lower (preorder t)"
    by (simp add: get_stats_def visited_def count_items_preorder)
  with len srt step eq ties show ?thesis by blast
qed

section \<open>Extensions\<close>

lemma split_last_occurrence:
  assumes "c \<in> set s"
  shows "\<exists>stem. s = stem @ c # rev (takeWhile (\<lambda>x. x \<noteq> c) (rev s))"
proof -
  let ?P = "\<lambda>x. x \<noteq> c"
  from assms have "dropWhile ?P (rev s) \<noteq> []" by simp
  then obtain d ds where d: "dropWhile ?P (rev s) = d # ds"
    by (cases "dropWhile ?P (rev s)") auto
  then have "\<not> ?P d" using hd_dropWhile [of ?P "rev s"] by auto
  then have "d = c" by simp
  have "rev s = takeWhile ?P (rev s) @ dropWhile ?P (rev s)" by simp
  then have "rev s = takeWhile ?P (rev s) @ c # ds" using d \<open>d = c\<close> by simp
  then have "rev (rev s) = rev (takeWhile ?P (rev s) @ c # ds)" by (rule arg_cong)
  then have "s = rev ds @ c # rev (takeWhile ?P (rev s))" by simp
  then show ?thesis by blast
qed

lemma rfind_absent: "c \<notin> set s \<Longrightarrow> rfind c s = - 1"
  by (simp add: rfind_def)

lemma splitext_base_name:
  assumes "CHR ''/'' \<notin> set name"
  shows "snd (splitext name) = raw_extension name"
proof (cases "CHR ''.'' \<in> set name")
  case False
  then show ?thesis
    using assms by (simp add: splitext_def rfind_def raw_extension_def last_dot_suffix_def)
next
  case True
  let ?suf = "rev (takeWhile (\<lambda>x. x \<noteq> CHR ''.'') (rev name))"
  from split_last_occurrence [OF True] obtain stem where name: "name = stem @ CHR ''.'' # ?suf"
    by blast
  have len: "length name = length stem + 1 + length ?suf"
    by (subst name) simp
  have dot: "rfind (CHR ''.'') name = int (length stem)"
    using True len by (simp add: rfind_def)
  have sep: "rfind (CHR ''/'') name = - 1"
    using assms by (rule rfind_absent)
  have tk: "take (length stem) name = stem" and dr: "drop (length stem) name = CHR ''.'' # ?suf"
    by (subst name, simp)+
  have lds: "last_dot_suffix name = CHR ''.'' # ?suf"
    using True by (simp add: last_dot_suffix_def)
  have tk': "take (length name - length (CHR ''.'' # ?suf)) name = stem"
    using len tk by simp
  have ext: "raw_extension name
             = (if list_ex (\<lambda>c. c \<noteq> CHR ''.'') stem then CHR ''.'' # ?suf else [])"
    unfolding raw_extension_def lds tk' by (rule refl)
  have sp: "snd (splitext name)
            = (if list_ex (\<lambda>c. c \<noteq> CHR ''.'') stem then CHR ''.'' # ?suf else [])"
    by (simp add: splitext_def dot sep tk dr Let_def)
  show ?thesis
    by (simp only: ext sp)
qed

text \<open>
  Claim C6, as amended: for a File node whose name is a base name, the extension is
  the lowered text from the last dot of the name on when some character before that dot
  is not a dot, and the lowered empty text otherwise (no dot at all, or nothing but dots
  before the last one, as in \<^verbatim>\<open>.bashrc\<close>). A non-empty extension (for instance
  \<^verbatim>\<open>.\<close> for the name \<^verbatim>\<open>file.\<close>) is counted under that key in \<open>extensions\<close> and
  \<open>size_by_ext\<close>; with an empty extension both maps stay as they are. This holds
  whatever the lowering of texts is.
\<close>

theorem C6_extension_of_file:
  assumes "CHR ''/'' \<notin> set name"
  shows "extensions (count_items lower (File name path sz) st)
           = (if lower (raw_extension name) = [] then extensions st
              else (extensions st)(lower (raw_extension name)
                     \<mapsto> get0 (extensions st) (lower (raw_extension name)) + 1))
         \<and> size_by_ext (count_items lower (File name path sz) st)
           = (if lower (raw_extension name) = [] then size_by_ext st
              else (size_by_ext st)(lower (raw_extension name)
                     \<mapsto> get0 (size_by_ext st) (lower (raw_extension name)) + sz))"
  by (simp add: Let_def splitext_base_name [OF assms])

text \<open>
  The theorem at the name \<^verbatim>\<open>Report.TXT\<close>, with the lowering of ASCII texts, and the
  extensions of some other names before lowering.
\<close>

theorem C6_witness:
  "CHR ''/'' \<notin> set ''Report.TXT''
   \<and> raw_extension ''Report.TXT'' = ''.TXT''
   \<and> raw_extension ''file.'' = ''.''
   \<and> raw_extension ''.bashrc'' = []
   \<and> raw_extension ''Makefile'' = []
   \<and> extensions (count_items ascii_lower (File ''Report.TXT'' ''docs/Report.TXT'' 7) initial_stats)
        ''.txt'' = Some 1
   \<and> size_by_ext (count_items ascii_lower (File ''Report.TXT'' ''docs/Report.TXT'' 7) initial_stats)
        ''.txt'' = Some 7"
proof -
  have h: "CHR ''/'' \<notin> set ''Report.TXT''" by simp
  have e: "raw_extension ''Report.TXT'' = ''.TXT''"
    by (simp add: raw_extension_def last_dot_suffix_def)
  have l: "ascii_lower ''.TXT'' = ''.txt''"
    by (simp add: ascii_lower_def lower_char_def)
  show ?thesis
    using C6_extension_of_file [OF h, of ascii_lower "''docs/Report.TXT''" 7 initial_stats]
    by (simp add: e l) (simp add: raw_extension_def last_dot_suffix_def initial_stats_def get0_def)
qed

text \<open>
  Claim C6, as stated, has the name \<^verbatim>\<open>.bashrc\<close> counted under a key that starts
  at its last dot; \<^verbatim>\<open>os.path.splitext\<close> gives it no extension and no key is
  recorded.
\<close>

theorem C6_counterexample:
  "extensions (get_stats ascii_lower (File ''.bashrc'' ''.bashrc'' 5)) ''.bashrc'' = None
   \<and> extensions (get_stats ascii_lower (File ''.bashrc'' ''.bashrc'' 5)) = Map.empty
   \<and> size_by_ext (get_stats ascii_lower (File ''.bashrc'' ''.bashrc'' 5)) = Map.empty
   \<and> snd (splitext ''.bashrc'') = []"
  by (simp add: stats_defs)

section \<open>Depth\<close>

lemma split_sep_no_sep: "CHR ''/'' \<notin> set s \<Longrightarrow> split_sep s = [s]"
  by (induction s) auto

lemma split_sep_append:
  "CHR ''/'' \<notin> set s \<Longrightarrow> split_sep (s @ CHR ''/'' # r) = s # split_sep r"
  by (induction s) auto

lemma split_sep_join:
  "rel \<noteq> [] \<Longrightarrow> list_all (\<lambda>n. CHR ''/'' \<notin> set n) rel \<Longrightarrow> split_sep (join_path rel) = rel"
  by (induction rel rule: join_path.induct) (auto simp: split_sep_no_sep split_sep_append)

lemma join_path_hd:
  "rel \<noteq> [] \<Longrightarrow> hd rel \<noteq> [] \<Longrightarrow> join_path rel \<noteq> [] \<and> hd (join_path rel) = hd (hd rel)"
  by (induction rel rule: join_path.induct) auto

lemma path_parts_rel_str:
  assumes "list_all valid_name rel"
  shows "path_parts (rel_str rel) = rel"
proof (cases "rel = []")
  case True
  then show ?thesis by (simp add: rel_str_def path_parts_def)
next
  case False
  from assms have nosep: "list_all (\<lambda>n. CHR ''/'' \<notin> set n) rel"
    by (simp add: list_all_iff valid_name_def)
  from False assms have hd: "hd rel \<noteq> []" "CHR ''/'' \<notin> set (hd rel)"
    by (cases rel; simp add: valid_name_def)+
  with join_path_hd [OF False] have j: "join_path rel \<noteq> []" "hd (join_path rel) \<noteq> CHR ''/''"
    by (auto simp: neq_Nil_conv)
  have flt: "filter (\<lambda>seg. seg \<noteq> [] \<and> seg \<noteq> ''.'') rel = rel"
    using assms by (simp add: list_all_iff valid_name_def)
  have "path_parts (join_path rel)
        = filter (\<lambda>seg. seg \<noteq> [] \<and> seg \<noteq> ''.'') (split_sep (join_path rel))"
    using j by (cases "join_path rel") (simp_all add: path_parts_def)
  then show ?thesis
    using False by (simp add: rel_str_def split_sep_join [OF False nosep] flt)
qed

lemma list_all_sort_key: "list_all P (sort_key f xs) = list_all P xs"
  by (simp add: list_all_iff)

lemma scan_paths_ok:
  "names_ok e \<Longrightarrow> list_all valid_name rel \<Longrightarrow> scan_directory e rel pats = Inr t
     \<Longrightarrow> paths_ok rel t \<and> node_name t = entry_name e"
  "list_all (\<lambda>i. valid_name (entry_name i) \<and> names_ok i) items \<Longrightarrow> list_all valid_name rel
     \<Longrightarrow> list_all (\<lambda>c. paths_ok (rel @ [node_name c]) c) (fst (scan_items items rel pats))"
proof (induction e rel pats and items rel pats arbitrary: t rule: scan_directory_scan_items.induct)
  case (1 n st rel patterns)
  then show ?case by simp
next
  case (2 n e rel patterns)
  then show ?case
    by (auto simp: finish_def paths_ok_def split: if_splits)
next
  case (3 n e rel patterns)
  then show ?case
    by (auto simp: finish_def paths_ok_def split: if_splits)
next
  case (4 n items rel patterns)
  from "4.IH" "4.prems" have "list_all (\<lambda>c. paths_ok (rel @ [node_name c]) c)
                 (fst (scan_items (sort_key entry_name items) rel patterns))"
    by (simp add: list_all_sort_key)
  with "4.prems" show ?case
    by (auto simp: finish_def paths_ok_def list_all_iff split: prod.splits option.splits if_splits)
next
  case (5 rel patterns)
  show ?case by simp
next
  case (6 item rest rel patterns)
  from "6.prems" have vi: "valid_name (entry_name item)" "names_ok item"
    and vr: "list_all (\<lambda>i. valid_name (entry_name i) \<and> names_ok i) rest"
    and vrel: "list_all valid_name (rel @ [entry_name item])"
    by simp_all
  show ?case
  proof (cases "should_ignore item (rel @ [entry_name item]) patterns")
    case (Inl e)
    then show ?thesis by simp
  next
    case si: (Inr b)
    show ?thesis
    proof (cases b)
      case True
      from "6.IH"(1) [OF si True vr "6.prems"(2)] si True show ?thesis by simp
    next
      case nb: False
      show ?thesis
      proof (cases "is_dir item")
        case (Inl e)
        with si nb show ?thesis by simp
      next
        case isd: (Inr d)
        show ?thesis
        proof (cases d)
          case True
          show ?thesis
          proof (cases "scan_directory item (rel @ [entry_name item]) patterns")
            case (Inl e)
            with si nb isd True show ?thesis by simp
          next
            case (Inr child)
            from "6.IH"(2) [OF si nb isd True vi(2) vrel Inr]
            have c: "paths_ok (rel @ [entry_name item]) child" "node_name child = entry_name item"
              by simp_all
            from "6.IH"(3) [OF si nb isd True Inr vr "6.prems"(2)]
            have "list_all (\<lambda>c. paths_ok (rel @ [node_name c]) c) (fst (scan_items rest rel patterns))" .
            with c si nb isd True Inr show ?thesis by (auto split: prod.splits)
          qed
        next
          case nd: False
          with isd obtain n st where it: "item = FileEntry n st" by (cases item) auto
          show ?thesis
          proof (cases st)
            case (Inl e)
            with si nb it show ?thesis by simp
          next
            case (Inr sz)
            from "6.IH"(4) [OF si nb isd nd it Inr vr "6.prems"(2)]
            have "list_all (\<lambda>c. paths_ok (rel @ [node_name c]) c) (fst (scan_items rest rel patterns))" .
            with si nb it Inr show ?thesis by (auto simp: paths_ok_def split: prod.splits)
          qed
        qed
      qed
    qed
  qed
qed

lemma max_depth_fold:
  assumes "\<And>c s. c \<in> set cs
             \<Longrightarrow> max_depth (count_items lower c s) = max (max_depth s) (deepest c)"
  shows "max_depth (fold (count_items lower) cs st)
         = max (max_depth st) (foldr max (map deepest cs) 0)"
  using assms by (induction cs arbitrary: st) (auto simp: max.assoc)

lemma max_depth_count_items:
  "max_depth (count_items lower t st) = max (max_depth st) (deepest t)"
proof (induction t arbitrary: st)
  case (File name path sz)
  show ?case by (simp add: Let_def)
next
  case (Directory name path children err)
  show ?case
    by (simp add: Let_def max_depth_fold [OF Directory.IH] max.assoc)
qed

lemma foldr_max_append:
  "foldr max xs (foldr max ys (0::nat)) = max (foldr max xs 0) (foldr max ys 0)"
  by (induction xs) (auto simp: max.assoc)

lemma foldr_max_Max: "foldr max xs (0::nat) = Max (set (0 # xs))"
proof (induction xs)
  case Nil
  show ?case by simp
next
  case (Cons a xs)
  have "Max (set (0 # a # xs)) = Max (insert a (set (0 # xs)))"
    by (simp add: insert_commute)
  also have "\<dots> = max a (Max (set (0 # xs)))"
    by (rule Max_insert) simp_all
  finally show ?case using Cons by simp
qed

lemma paths_ok_Directory:
  "paths_ok rel (Directory name path children err)
   = (path = rel_str rel \<and> list_all valid_name rel
      \<and> list_all (\<lambda>c. paths_ok (rel @ [node_name c]) c) children)"
  by (auto simp: paths_ok_def list_all_iff)

lemma deepest_paths:
  "paths_ok rel t \<Longrightarrow> deepest t = foldr max (map (\<lambda>(p, segs). length segs) (dir_paths rel t)) 0"
proof (induction t arbitrary: rel)
  case (File name path sz)
  show ?case by simp
next
  case (Directory name path children err)
  from Directory.prems have p: "path = rel_str rel" "list_all valid_name rel"
    and ch: "\<And>c. c \<in> set children \<Longrightarrow> paths_ok (rel @ [node_name c]) c"
    by (auto simp: paths_ok_Directory list_all_iff)
  have "foldr max (map deepest cs) 0
        = foldr max (map (\<lambda>(p, segs). length segs)
            (concat (map (\<lambda>c. dir_paths (rel @ [node_name c]) c) cs))) 0"
    if "set cs \<subseteq> set children" for cs
    using that
  proof (induction cs)
    case Nil
    show ?case by simp
  next
    case (Cons c cs)
    then have "c \<in> set children" by simp
    from Directory.IH [OF this ch [OF this]] Cons show ?case
      by (simp add: foldr_max_append)
  qed
  from this [of children] show ?case
    by (simp add: p path_parts_rel_str)
qed

text \<open>
  Claim C2, as amended: in the tree of a scan (of a file system whose entry names are
  non-empty, hold no \<^verbatim>\<open>/\<close> and are not \<^verbatim>\<open>.\<close>), the path of every Directory
  node is the text of its root-relative path, and the depth that the aggregation
  computes for it is the number of segments of that path; the root, with the path
  \<^verbatim>\<open>.\<close>, has no segment and depth 0. The resulting \<open>max_depth\<close> is the largest
  number of segments among the directory nodes.
\<close>

theorem C2_depth_is_segment_count:
  assumes "names_ok root" and "scan root patterns = Inr t"
  shows "list_all (\<lambda>(p, segs). p = rel_str segs \<and> length (path_parts p) = length segs)
           (dir_paths [] t)
         \<and> max_depth (get_stats lower t) = Max (set (map (\<lambda>(p, segs). length segs) (dir_paths [] t)))
         \<and> (\<exists>children err. t = Directory (entry_name root) ''.'' children err)
         \<and> length (path_parts ''.'') = 0"
proof -
  from assms have ok: "paths_ok [] t"
    using scan_paths_ok(1) [of root "[]" patterns t] by (simp add: scan_def)
  then have a: "list_all (\<lambda>(p, segs). p = rel_str segs \<and> length (path_parts p) = length segs)
                  (dir_paths [] t)"
    by (auto simp: paths_ok_def list_all_iff path_parts_rel_str)
  from assms(2) obtain children err where t: "t = Directory (entry_name root) ''.'' children err"
    by (cases root) (auto simp: scan_def finish_def rel_str_def split: prod.splits option.splits if_splits)
  have "max_depth (get_stats lower t) = deepest t"
    by (simp add: get_stats_def initial_stats_def max_depth_count_items)
  also have "\<dots> = foldr max (map (\<lambda>(p, segs). length segs) (dir_paths [] t)) 0"
    using ok by (rule deepest_paths)
  also have "\<dots> = Max (set (0 # map (\<lambda>(p, segs). length segs) (dir_paths [] t)))"
    by (rule foldr_max_Max)
  also have "\<dots> = Max (set (map (\<lambda>(p, segs). length segs) (dir_paths [] t)))"
    by (simp add: t insert_absorb)
  finally have b: "max_depth (get_stats lower t)
                   = Max (set (map (\<lambda>(p, segs). length segs) (dir_paths [] t)))" .
  have "length (path_parts ''.'') = 0" by (simp add: path_parts_def)
  with a b t show ?thesis by blast
qed

text \<open>
  The theorem on the scenario of the specification: the directory nodes are the root,
  at depth 0, and \<^verbatim>\<open>d\<close>, at depth 1.
\<close>

theorem C2_witness:
  "names_ok scenario_root \<and> scan scenario_root [''b/''] = Inr scenario_tree
   \<and> dir_paths [] scenario_tree = [(''.'', []), (''d'', [''d''])]
   \<and> max_depth (get_stats ascii_lower scenario_tree) = 1"
proof -
  have n: "names_ok scenario_root"
    by (simp add: scenario_root_def valid_name_def)
  have d: "dir_paths [] scenario_tree = [(''.'', []), (''d'', [''d''])]"
    by (simp add: scenario_tree_def)
  from C2_depth_is_segment_count [OF n scenario_scan, of ascii_lower] show ?thesis
    by (simp add: n scenario_scan d)
qed

text \<open>
  Claim C2, as stated, has \<open>max_depth\<close> at least 1 for every scanned tree. A root
  that holds one file and no directory gives 0.
\<close>

theorem C2_counterexample:
  "scan (DirEntry ''proj'' [FileEntry ''a.txt'' (Inr 10)]) []
     = Inr (Directory ''proj'' ''.'' [File ''a.txt'' ''a.txt'' 10] None)
   \<and> max_depth (get_stats ascii_lower (Directory ''proj'' ''.'' [File ''a.txt'' ''a.txt'' 10] None)) = 0
   \<and> \<not> 1 \<le> max_depth (get_stats ascii_lower (Directory ''proj'' ''.'' [File ''a.txt'' ''a.txt'' 10] None))"
  by (simp add: scanner_defs) (simp add: stats_defs)

section \<open>The pattern scenarios\<close>

lemma match_literal: "match_items (map Lit p) s = (s = p)"
proof (induction p arbitrary: s)
  case Nil
  show ?case by simp
next
  case (Cons c p)
  show ?case by (cases s) (auto simp: Cons.IH)
qed

lemma fnmatch_build_slash: "fnmatch s ''build/'' = (s = ''build/'')"
proof -
  have "translate ''build/'' = map Lit ''build/''" by simp
  then show ?thesis by (simp only: fnmatch_def match_literal)
qed

lemma join_path_last:
  "rel \<noteq> [] \<Longrightarrow> last rel \<noteq> [] \<Longrightarrow> join_path rel \<noteq> [] \<and> last (join_path rel) = last (last rel)"
  by (induction rel rule: join_path.induct) auto

lemma join_path_sep: "2 \<le> length rel \<Longrightarrow> CHR ''/'' \<in> set (join_path rel)"
  by (induction rel rule: join_path.induct) auto

lemma path_str_not_build_slash:
  assumes "rel \<noteq> []" and "last rel = ''build''"
  shows "path_str rel \<noteq> ''build/''"
proof -
  from assms join_path_last [of rel]
  have j: "join_path rel \<noteq> []" "last (join_path rel) = CHR ''d''" by simp_all
  then have "last (path_str rel) = CHR ''d''"
    using assms(1) by (simp add: path_str_def rel_str_def last_map)
  then show ?thesis by auto
qed

lemma parent_is_build:
  assumes "k < length rel" and "rel_str (take k rel) = ''build''"
  shows "2 \<le> length rel \<and> hd rel = ''build''"
proof -
  have "k \<noteq> 0" using assms(2) by (auto simp: rel_str_def split: if_splits)
  moreover have "\<not> 2 \<le> k"
  proof
    assume "2 \<le> k"
    with assms(1) have "2 \<le> length (take k rel)" by simp
    then have "CHR ''/'' \<in> set (join_path (take k rel))" by (rule join_path_sep)
    moreover from \<open>2 \<le> k\<close> assms(1) have "take k rel \<noteq> []" by auto
    ultimately show False using assms(2) by (auto simp: rel_str_def)
  qed
  ultimately have k: "k = 1" by simp
  with assms(1) obtain x xs where rel: "rel = x # xs" "xs \<noteq> []"
    by (cases rel) auto
  with k assms(2) show ?thesis
    by (cases xs) (auto simp: rel_str_def)
qed

text \<open>
  Claim C3, as amended: with the single pattern \<^verbatim>\<open>*.log\<close>, the entries with relative
  paths \<^verbatim>\<open>app.log\<close> and \<^verbatim>\<open>sub/dir/app.log\<close> are ignored and \<^verbatim>\<open>app.logs\<close> is not;
  with the single pattern \<^verbatim>\<open>build/\<close>, a directory named \<^verbatim>\<open>build\<close> is ignored at
  any depth, and so is every entry that \<^verbatim>\<open>is_dir()\<close> can inspect beneath a directory
  \<^verbatim>\<open>build\<close> that lies directly under the scan root, while a file named \<^verbatim>\<open>build\<close>
  that is not beneath such a top-level \<^verbatim>\<open>build\<close> directory is kept; for an entry on
  which \<^verbatim>\<open>is_dir()\<close> raises, \<^verbatim>\<open>should_ignore\<close> with this pattern raises the same
  error, unless the pattern matches the relative path itself; with the single pattern
  \<^verbatim>\<open>temp\<close>, every file or directory whose base name is \<^verbatim>\<open>temp\<close> is ignored, at any
  depth.
\<close>

theorem C3_pattern_scenarios:
  "should_ignore e [''app.log''] [''*.log''] = Inr True
   \<and> should_ignore e [''sub'', ''dir'', ''app.log''] [''*.log''] = Inr True
   \<and> (entry_name e = ''app.logs'' \<longrightarrow> should_ignore e [''app.logs''] [''*.log''] = Inr False)
   \<and> (is_dir e = Inr True \<and> entry_name e = ''build''
       \<longrightarrow> should_ignore e rel [''build/''] = Inr True)
   \<and> (below \<noteq> [] \<and> is_dir e = Inr d
       \<longrightarrow> should_ignore e (''build'' # below) [''build/''] = Inr True)
   \<and> (is_dir e = Inr False \<and> entry_name e = ''build'' \<and> rel \<noteq> [] \<and> last rel = ''build''
        \<and> \<not> (2 \<le> length rel \<and> hd rel = ''build'')
       \<longrightarrow> should_ignore e rel [''build/''] = Inr False)
   \<and> (is_dir e = Inl err \<and> path_str rel \<noteq> ''build/''
       \<longrightarrow> should_ignore e rel [''build/''] = Inl err)
   \<and> (entry_name e = ''temp'' \<longrightarrow> should_ignore e rel [''temp''] = Inr True)"
proof -
  have log1: "should_ignore e [''app.log''] [''*.log''] = Inr True"
    by (simp add: scanner_defs)
  have log2: "should_ignore e [''sub'', ''dir'', ''app.log''] [''*.log''] = Inr True"
    by (simp add: scanner_defs)
  have log3: "should_ignore e [''app.logs''] [''*.log''] = Inr False"
    if "entry_name e = ''app.logs''"
    using that by (simp add: scanner_defs)
  have dir: "should_ignore e rel [''build/''] = Inr True"
    if "is_dir e = Inr True \<and> entry_name e = ''build''"
    using that by (simp add: pattern_ignores_def endswith_slash_def fnmatch_def)
  have under: "should_ignore e (''build'' # below) [''build/''] = Inr True"
    if h: "below \<noteq> [] \<and> is_dir e = Inr d"
  proof -
    from h have "1 \<in> {0..<length (''build'' # below)}"
      by (cases below) simp_all
    then have "take 1 (''build'' # below)
               \<in> (\<lambda>k. take k (''build'' # below)) ` {0..<length (''build'' # below)}"
      by (rule imageI)
    then have "take 1 (''build'' # below) \<in> set (parents (''build'' # below))"
      by (simp only: parents_def set_map set_rev set_upt)
    moreover have "fnmatch (rel_str (take 1 (''build'' # below)) @ ''/'') ''build/''"
      by (simp add: fnmatch_build_slash rel_str_def)
    ultimately have "list_ex (\<lambda>parent. fnmatch (rel_str parent @ ''/'') ''build/'')
                       (parents (''build'' # below))"
      unfolding list_ex_iff by blast
    with h show ?thesis
      by (simp add: pattern_ignores_def endswith_slash_def)
  qed
  have fil: "should_ignore e rel [''build/''] = Inr False"
    if h: "is_dir e = Inr False \<and> entry_name e = ''build'' \<and> rel \<noteq> [] \<and> last rel = ''build''
           \<and> \<not> (2 \<le> length rel \<and> hd rel = ''build'')"
  proof -
    from h have r1: "\<not> fnmatch (path_str rel) ''build/''"
      by (simp add: fnmatch_build_slash path_str_not_build_slash)
    have r2: "\<not> list_ex (\<lambda>parent. fnmatch (rel_str parent @ ''/'') ''build/'') (parents rel)"
    proof
      assume "list_ex (\<lambda>parent. fnmatch (rel_str parent @ ''/'') ''build/'') (parents rel)"
      then obtain k where "k < length rel" "rel_str (take k rel) = ''build''"
        by (auto simp: list_ex_iff parents_def fnmatch_build_slash)
      then have "2 \<le> length rel \<and> hd rel = ''build''" by (rule parent_is_build)
      with h show False by simp
    qed
    from h have r3: "\<not> fnmatch (entry_name e) ''build/''"
      by (simp add: fnmatch_build_slash)
    from h r1 r2 r3 show ?thesis
      by (simp add: pattern_ignores_def endswith_slash_def)
  qed
  have raises: "should_ignore e rel [''build/''] = Inl err"
    if "is_dir e = Inl err \<and> path_str rel \<noteq> ''build/''"
    using that by (simp add: pattern_ignores_def endswith_slash_def fnmatch_build_slash)
  have temp: "should_ignore e rel [''temp''] = Inr True" if "entry_name e = ''temp''"
    using that by (simp add: pattern_ignores_def endswith_slash_def fnmatch_def)
  from log1 log2 log3 dir under fil raises temp show ?thesis by blast
qed

text \<open>
  The theorem at concrete entries, one for each of its hypotheses.
\<close>

theorem C3_witness:
  "should_ignore (FileEntry ''app.logs'' (Inr 1)) [''app.logs''] [''*.log''] = Inr False
   \<and> should_ignore (DirEntry ''build'' []) [''src'', ''build''] [''build/''] = Inr True
   \<and> should_ignore (FileEntry ''x.o'' (Inr 3)) [''build'', ''obj'', ''x.o''] [''build/''] = Inr True
   \<and> should_ignore (FileEntry ''build'' (Inr 3)) [''src'', ''build''] [''build/''] = Inr False
   \<and> should_ignore (Blocked ''link'' PermissionError) [''src'', ''link''] [''build/'']
       = Inl PermissionError
   \<and> should_ignore (FileEntry ''temp'' (Inr 0)) [''a'', ''b'', ''temp''] [''temp''] = Inr True"
  using C3_pattern_scenarios [of "FileEntry ''app.logs'' (Inr 1)" "[]" "[]" False PermissionError]
    C3_pattern_scenarios [of "DirEntry ''build'' []" "[''src'', ''build'']" "[]" True PermissionError]
    C3_pattern_scenarios [of "FileEntry ''x.o'' (Inr 3)" "[]" "[''obj'', ''x.o'']" False PermissionError]
    C3_pattern_scenarios [of "FileEntry ''build'' (Inr 3)" "[''src'', ''build'']" "[]" False PermissionError]
    C3_pattern_scenarios [of "Blocked ''link'' PermissionError" "[''src'', ''link'']" "[]" False PermissionError]
    C3_pattern_scenarios [of "FileEntry ''temp'' (Inr 0)" "[''a'', ''b'', ''temp'']" "[]" False PermissionError]
  by (simp add: path_str_def rel_str_def)

text \<open>
  Claim C3, as stated, has every entry beneath a directory named \<^verbatim>\<open>build\<close> ignored:
  the directory \<^verbatim>\<open>sub/build\<close> is ignored, the file \<^verbatim>\<open>sub/build/x.txt\<close> is not, and
  for the entry \<^verbatim>\<open>build/link\<close>, on which \<^verbatim>\<open>is_dir()\<close> raises, the function raises.
\<close>

theorem C3_counterexample:
  "should_ignore (DirEntry ''build'' [FileEntry ''x.txt'' (Inr 1)]) [''sub'', ''build''] [''build/'']
     = Inr True
   \<and> should_ignore (FileEntry ''x.txt'' (Inr 1)) [''sub'', ''build'', ''x.txt''] [''build/'']
     = Inr False
   \<and> should_ignore (Blocked ''link'' PermissionError) [''build'', ''link''] [''build/'']
     = Inl PermissionError"
  by (simp add: scanner_defs)

section \<open>Failures and the root\<close>

lemma finish_cases:
  "finish n rel (children, ex) = Inr t
   \<longleftrightarrow> (ex = None \<and> t = Directory n (rel_str rel) children None)
       \<or> (ex = Some PermissionError
          \<and> t = Directory n (rel_str rel) children (Some ''Permission denied''))"
  by (auto simp: finish_def split: option.splits)

lemma finish_not_permission: "finish n rel r \<noteq> Inl PermissionError"
  by (auto simp: finish_def split: prod.splits option.splits)

lemma scan_directory_not_permission: "scan_directory e rel patterns \<noteq> Inl PermissionError"
  by (cases e) (simp_all add: finish_not_permission)

lemma should_ignore_raises:
  "should_ignore item rel patterns = Inl e \<Longrightarrow> is_dir item = Inl e"
  by (induction patterns)
     (auto simp: pattern_ignores_def split: sum.splits if_splits)

lemma recoverable_is_dir:
  "recoverable item \<Longrightarrow> is_dir item = Inl e \<Longrightarrow> e = PermissionError"
  by (cases item) auto

lemma scan_recoverable:
  "recoverable e \<Longrightarrow> is_dir e = Inr True \<Longrightarrow> \<exists>t. scan_directory e rel patterns = Inr t"
  "list_all recoverable items
     \<Longrightarrow> snd (scan_items items rel patterns) = None
         \<or> snd (scan_items items rel patterns) = Some PermissionError"
proof (induction e rel patterns and items rel patterns rule: scan_directory_scan_items.induct)
  case (1 n st rel patterns)
  then show ?case by simp
next
  case (2 n e rel patterns)
  then show ?case by (simp add: finish_def)
next
  case (3 n e rel patterns)
  then show ?case by simp
next
  case (4 n items rel patterns)
  from "4.prems" have "list_all recoverable (sort_key entry_name items)"
    by (simp add: list_all_sort_key)
  from "4.IH" [OF this] show ?case
    by (cases "scan_items (sort_key entry_name items) rel patterns") (auto simp: finish_def)
next
  case (5 rel patterns)
  show ?case by simp
next
  case (6 item rest rel patterns)
  from "6.prems" have item: "recoverable item" and rest: "list_all recoverable rest"
    by simp_all
  show ?case
  proof (cases "should_ignore item (rel @ [entry_name item]) patterns")
    case (Inl e)
    from recoverable_is_dir [OF item should_ignore_raises [OF Inl]] Inl show ?thesis by simp
  next
    case si: (Inr b)
    show ?thesis
    proof (cases b)
      case True
      from "6.IH"(1) [OF si True rest] si True show ?thesis by simp
    next
      case nb: False
      show ?thesis
      proof (cases "is_dir item")
        case (Inl e)
        from recoverable_is_dir [OF item Inl] Inl si nb show ?thesis by simp
      next
        case isd: (Inr d)
        show ?thesis
        proof (cases d)
          case True
          with isd have "is_dir item = Inr True" by simp
          from "6.IH"(2) [OF si nb isd True item this] obtain child
            where child: "scan_directory item (rel @ [entry_name item]) patterns = Inr child"
            by blast
          from "6.IH"(3) [OF si nb isd True child rest] si nb isd True child show ?thesis
            by (auto split: prod.splits)
        next
          case nd: False
          with isd obtain n st where it: "item = FileEntry n st" by (cases item) auto
          show ?thesis
          proof (cases st)
            case (Inl e)
            with item it si nb show ?thesis by simp
          next
            case (Inr sz)
            from "6.IH"(4) [OF si nb isd nd it Inr rest] si nb it Inr show ?thesis
              by (auto split: prod.splits)
          qed
        qed
      qed
    qed
  qed
qed

text \<open>
  Claim C5, as amended: the scan of a root directory does not fail when the only
  failures under the root are denied permissions, be it on the listing of a directory
  (the root included), on the inspection of an entry or on the size query of a file: it
  returns a tree. No scan fails with a permission error.
\<close>

theorem C5_permission_errors_not_fatal:
  "(is_dir root = Inr True \<and> recoverable root \<longrightarrow> (\<exists>t. scan root patterns = Inr t))
   \<and> scan root patterns \<noteq> Inl PermissionError"
  using scan_recoverable(1) [of root "[]" patterns]
  by (simp add: scan_def scan_directory_not_permission)

text \<open>
  The theorem at a root with a directory that cannot be listed: the scan returns.
\<close>

theorem C5_witness:
  "is_dir (DirEntry ''proj'' [FailDir ''locked'' PermissionError, FileEntry ''z.txt'' (Inr 4)])
     = Inr True
   \<and> recoverable (DirEntry ''proj'' [FailDir ''locked'' PermissionError, FileEntry ''z.txt'' (Inr 4)])
   \<and> scan (DirEntry ''proj'' [FailDir ''locked'' PermissionError, FileEntry ''z.txt'' (Inr 4)]) []
       = Inr (Directory ''proj'' ''.''
               [Directory ''locked'' ''locked'' [] (Some ''Permission denied''),
                File ''z.txt'' ''z.txt'' 4] None)"
  using C5_permission_errors_not_fatal
    [of "DirEntry ''proj'' [FailDir ''locked'' PermissionError, FileEntry ''z.txt'' (Inr 4)]" "[]"]
  by (simp add: scanner_defs)

text \<open>
  Claim C5, as stated, has the scan of a listable root never fail. A root that holds one
  file and one broken link, whose size query raises \<^verbatim>\<open>FileNotFoundError\<close>, makes it
  fail.
\<close>

theorem C5_counterexample:
  "scan (DirEntry ''proj'' [FileEntry ''a.txt'' (Inr 1), FileEntry ''dangling'' (Inl FileNotFoundError)]) []
     = Inl FileNotFoundError"
  by (simp add: scanner_defs)

text \<open>
  Claim C9, as amended: the root is never matched against the patterns. Whatever the
  patterns, the scan of a root directory under which nothing fails but for denied
  permissions returns a Directory node that carries the root's name and the path
  \<^verbatim>\<open>.\<close>; whenever the scan of a root directory returns a node, it is such a node;
  and the result of a scan does not depend on the root's name beyond the name field of
  that node.
\<close>

theorem C9_root_never_ignored:
  "(recoverable (DirEntry n items)
      \<longrightarrow> (\<exists>children err. scan (DirEntry n items) patterns = Inr (Directory n ''.'' children err)))
   \<and> (scan (DirEntry n items) patterns = Inr t
      \<longrightarrow> (\<exists>children err. t = Directory n ''.'' children err))
   \<and> scan (DirEntry n' items) patterns = map_sum id (rename n') (scan (DirEntry n items) patterns)"
proof -
  have r: "\<exists>children err. t = Directory n ''.'' children err"
    if "scan (DirEntry n items) patterns = Inr t" for t
    using that
    by (cases "scan_items (sort_key entry_name items) [] patterns")
       (auto simp: scan_def finish_cases rel_str_def)
  have a: "\<exists>children err. scan (DirEntry n items) patterns = Inr (Directory n ''.'' children err)"
    if "recoverable (DirEntry n items)"
  proof -
    from scan_recoverable(1) [OF that, of "[]" patterns]
    obtain u where u: "scan (DirEntry n items) patterns = Inr u" by (auto simp: scan_def)
    with r [OF u] show ?thesis by auto
  qed
  have b: "scan (DirEntry n' items) patterns
           = map_sum id (rename n') (scan (DirEntry n items) patterns)"
    by (cases "scan_items (sort_key entry_name items) [] patterns")
       (auto simp: scan_def finish_def split: option.splits)
  from a r b show ?thesis by blast
qed

text \<open>
  The theorem at a root named \<^verbatim>\<open>build\<close> with patterns that match this name: the
  subdirectory \<^verbatim>\<open>build\<close> is ignored, the root is not.
\<close>

theorem C9_witness:
  "recoverable (DirEntry ''build'' [FileEntry ''a.txt'' (Inr 1), DirEntry ''build'' []])
   \<and> should_ignore (DirEntry ''build'' []) [''build''] [''build'', ''build/'', ''*uild'']
       = Inr True
   \<and> scan (DirEntry ''build'' [FileEntry ''a.txt'' (Inr 1), DirEntry ''build'' []])
        [''build'', ''build/'', ''*uild'']
       = Inr (Directory ''build'' ''.'' [File ''a.txt'' ''a.txt'' 1] None)"
  using C9_root_never_ignored
    [of "''build''" "[FileEntry ''a.txt'' (Inr 1), DirEntry ''build'' []]"
        "[''build'', ''build/'', ''*uild'']"
        "Directory ''build'' ''.'' [File ''a.txt'' ''a.txt'' 1] None" "''build''"]
  by (simp add: scanner_defs)

text \<open>
  Claim C9, as stated, has the scan return a Directory node for the root for every
  pattern set. Where an entry below the root raises another error than a denied
  permission, here the size query of a broken link, the scan returns no node, whether
  the patterns match the root's name or not.
\<close>

theorem C9_counterexample:
  "scan (DirEntry ''build'' [FileEntry ''stale'' (Inl FileNotFoundError)]) [''build'']
     = Inl FileNotFoundError
   \<and> scan (DirEntry ''build'' [FileEntry ''stale'' (Inl FileNotFoundError)]) []
     = Inl FileNotFoundError"
  by (simp add: scanner_defs)

section \<open>Directories that cannot be listed\<close>

lemma strip_denied_name: "entry_name (strip_denied e) = entry_name e"
  by (cases e) auto

lemma strip_denied_is_dir: "is_dir (strip_denied e) = is_dir e"
  by (cases e) auto

lemma strip_denied_pattern:
  "pattern_ignores (strip_denied e) rel pattern = pattern_ignores e rel pattern"
  by (cases e) (simp_all add: pattern_ignores_def)

lemma strip_denied_ignore:
  "should_ignore (strip_denied e) rel patterns = should_ignore e rel patterns"
  by (induction patterns) (simp_all add: strip_denied_pattern split: sum.splits)

lemma strip_denied_insort:
  "insort_key entry_name (strip_denied x) (map strip_denied xs)
   = map strip_denied (insort_key entry_name x xs)"
  by (induction xs) (auto simp: strip_denied_name)

lemma strip_denied_sort:
  "sort_key entry_name (map strip_denied xs) = map strip_denied (sort_key entry_name xs)"
  by (induction xs) (auto simp: strip_denied_insort)

lemma erase_finish:
  "map_sum id erase_errors (finish n rel (children, ex))
   = (case ex of
        None \<Rightarrow> Inr (Directory n (rel_str rel) (map erase_errors children) None)
      | Some e \<Rightarrow> if e = PermissionError
                  then Inr (Directory n (rel_str rel) (map erase_errors children) None)
                  else Inl e)"
  by (simp add: finish_def split: option.splits)

lemma erase_finish_cong:
  assumes "map_prod (map erase_errors) id r = map_prod (map erase_errors) id r'"
  shows "map_sum id erase_errors (finish n rel r) = map_sum id erase_errors (finish n rel r')"
  using assms by (cases r; cases r') (auto simp: erase_finish split: option.splits)

lemma scan_strip_denied:
  "map_sum id erase_errors (scan_directory (strip_denied e) rel patterns)
   = map_sum id erase_errors (scan_directory e rel patterns)"
  "map_prod (map erase_errors) id (scan_items (map strip_denied items) rel patterns)
   = map_prod (map erase_errors) id (scan_items items rel patterns)"
proof (induction e rel patterns and items rel patterns rule: scan_directory_scan_items.induct)
  case (1 n st rel patterns)
  show ?case by simp
next
  case (2 n e rel patterns)
  show ?case by (simp add: finish_def)
next
  case (3 n e rel patterns)
  show ?case by simp
next
  case (4 n items rel patterns)
  show ?case
    unfolding strip_denied.simps scan_directory.simps strip_denied_sort
    by (rule erase_finish_cong) (rule "4.IH")
next
  case (5 rel patterns)
  show ?case by simp
next
  case (6 item rest rel patterns)
  note same = strip_denied_ignore strip_denied_name strip_denied_is_dir
  show ?case
  proof (cases "should_ignore item (rel @ [entry_name item]) patterns")
    case (Inl e)
    then show ?thesis by (simp add: same)
  next
    case si: (Inr b)
    show ?thesis
    proof (cases b)
      case True
      from "6.IH"(1) [OF si True] si True show ?thesis by (simp add: same)
    next
      case nb: False
      show ?thesis
      proof (cases "is_dir item")
        case (Inl e)
        with si nb show ?thesis by (simp add: same)
      next
        case isd: (Inr d)
        show ?thesis
        proof (cases d)
          case True
          note sub = "6.IH"(2) [OF si nb isd True]
          show ?thesis
          proof (cases "scan_directory item (rel @ [entry_name item]) patterns")
            case (Inl e)
            with sub
            have "scan_directory (strip_denied item) (rel @ [entry_name item]) patterns = Inl e"
              by (cases "scan_directory (strip_denied item) (rel @ [entry_name item]) patterns")
                 auto
            with Inl si nb isd True show ?thesis by (simp add: same)
          next
            case (Inr child)
            with sub obtain child'
              where c: "scan_directory (strip_denied item) (rel @ [entry_name item]) patterns
                        = Inr child'"
                "erase_errors child' = erase_errors child"
              by (cases "scan_directory (strip_denied item) (rel @ [entry_name item]) patterns")
                 auto
            from "6.IH"(3) [OF si nb isd True Inr] c Inr si nb isd True show ?thesis
              by (auto simp: same split: prod.splits)
          qed
        next
          case nd: False
          with isd obtain n st where it: "item = FileEntry n st" by (cases item) auto
          show ?thesis
          proof (cases st)
            case (Inl e)
            with it si nb show ?thesis by simp
          next
            case (Inr sz)
            from "6.IH"(4) [OF si nb isd nd it Inr] it Inr si nb show ?thesis
              by (auto split: prod.splits)
          qed
        qed
      qed
    qed
  qed
qed

lemma count_items_erase: "count_items lower (erase_errors t) st = count_items lower t st"
proof (induction t arbitrary: st)
  case (File name path sz)
  show ?case by simp
next
  case (Directory name path children err)
  have "fold (count_items lower) (map erase_errors children) s
        = fold (count_items lower) children s" for s
    using Directory.IH by (induction children arbitrary: s) auto
  then show ?case by (simp add: Let_def)
qed

lemma get_stats_erase: "get_stats lower (erase_errors t) = get_stats lower t"
  by (simp add: get_stats_def count_items_erase)

text \<open>
  Claim C4, as amended: a directory whose listing is denied is built as a node with
  the marker and no children, and the failure is not fatal: apart from the markers, the
  scan builds the tree that it builds when every such directory is empty instead, so
  the nodes of the siblings and the statistics are those of that file system.
\<close>

theorem C4_denied_directory:
  "scan_directory (FailDir n PermissionError) rel patterns
     = Inr (Directory n (rel_str rel) [] (Some ''Permission denied''))
   \<and> map_sum id erase_errors (scan root patterns)
     = map_sum id erase_errors (scan (strip_denied root) patterns)
   \<and> map_sum id (get_stats lower) (scan root patterns)
     = map_sum id (get_stats lower) (scan (strip_denied root) patterns)"
proof -
  have a: "scan_directory (FailDir n PermissionError) rel patterns
           = Inr (Directory n (rel_str rel) [] (Some ''Permission denied''))"
    by (simp add: finish_def)
  have b: "map_sum id erase_errors (scan root patterns)
           = map_sum id erase_errors (scan (strip_denied root) patterns)"
    by (simp add: scan_def scan_strip_denied(1))
  have e: "map_sum id (get_stats lower) x = map_sum id (get_stats lower) (map_sum id erase_errors x)" for x
    by (cases x) (simp_all add: get_stats_erase)
  have c: "map_sum id (get_stats lower) (scan root patterns)
           = map_sum id (get_stats lower) (scan (strip_denied root) patterns)"
    by (subst e, subst (2) e) (simp only: b)
  from a b c show ?thesis by blast
qed

text \<open>
  The theorem at a root where a denied directory stands between two files: both files
  are in the tree and in the statistics.
\<close>

theorem C4_witness:
  "scan (DirEntry ''proj''
          [FileEntry ''a.txt'' (Inr 3), FailDir ''locked'' PermissionError, FileEntry ''z.txt'' (Inr 4)]) []
     = Inr (Directory ''proj'' ''.''
             [File ''a.txt'' ''a.txt'' 3,
              Directory ''locked'' ''locked'' [] (Some ''Permission denied''),
              File ''z.txt'' ''z.txt'' 4] None)
   \<and> map_sum id (\<lambda>s. (files s, directories s, total_size s))
        (map_sum id (get_stats ascii_lower)
          (scan (DirEntry ''proj''
             [FileEntry ''a.txt'' (Inr 3), FailDir ''locked'' PermissionError,
              FileEntry ''z.txt'' (Inr 4)]) []))
     = Inr (2, 2, 7)"
proof -
  have "map_sum id (\<lambda>s. (files s, directories s, total_size s))
          (map_sum id (get_stats ascii_lower)
            (scan (strip_denied (DirEntry ''proj''
               [FileEntry ''a.txt'' (Inr 3), FailDir ''locked'' PermissionError,
                FileEntry ''z.txt'' (Inr 4)])) []))
        = Inr (2, 2, 7)"
    by (simp add: scanner_defs) (simp add: stats_defs)
  then show ?thesis
    using C4_denied_directory [of "''locked''" "[''locked'']" "[]"
        "DirEntry ''proj''
          [FileEntry ''a.txt'' (Inr 3), FailDir ''locked'' PermissionError,
           FileEntry ''z.txt'' (Inr 4)]" ascii_lower]
    by (simp add: scanner_defs)
qed

text \<open>
  Claim C4, as stated, has every node with the marker without children. A permission
  error raised by the size query of an entry, or by its inspection, is caught by the
  handler of the enclosing directory, after the entries before it were appended: the
  node has the marker and a child, and the entries after it are missing.
\<close>

theorem C4_counterexample:
  "scan (DirEntry ''proj''
          [FileEntry ''a.txt'' (Inr 3), FileEntry ''link'' (Inl PermissionError),
           FileEntry ''z.txt'' (Inr 4)]) []
     = Inr (Directory ''proj'' ''.'' [File ''a.txt'' ''a.txt'' 3] (Some ''Permission denied''))
   \<and> scan (DirEntry ''proj''
          [FileEntry ''a.txt'' (Inr 3), Blocked ''link'' PermissionError,
           FileEntry ''z.txt'' (Inr 4)]) []
     = Inr (Directory ''proj'' ''.'' [File ''a.txt'' ''a.txt'' 3] (Some ''Permission denied''))"
  by (simp add: scanner_defs)

section \<open>The files of the tree\<close>

lemma sizes_known_is_dir: "sizes_known item \<Longrightarrow> \<exists>d. is_dir item = Inr d"
  by (cases item) auto

lemma sizes_known_ignore:
  "sizes_known item \<Longrightarrow> \<exists>b. should_ignore item rel patterns = Inr b"
  using should_ignore_raises [of item rel patterns] sizes_known_is_dir [of item]
  by (cases "should_ignore item rel patterns") auto

lemma scan_kept_files:
  "sizes_known e \<Longrightarrow> scan_directory e rel patterns = Inr t
     \<Longrightarrow> tree_files t = map as_text (kept_files e rel patterns)"
  "list_all sizes_known items
     \<Longrightarrow> snd (scan_items items rel patterns) \<noteq> Some PermissionError
         \<and> (snd (scan_items items rel patterns) = None
              \<longrightarrow> concat (map tree_files (fst (scan_items items rel patterns)))
                  = map as_text (kept_items items rel patterns))"
proof (induction e rel patterns and items rel patterns arbitrary: t
       rule: scan_directory_scan_items.induct)
  case (1 n st rel patterns)
  then show ?case by simp
next
  case (2 n e rel patterns)
  then show ?case by (auto simp: finish_cases)
next
  case (3 n e rel patterns)
  then show ?case by simp
next
  case (4 n items rel patterns)
  from "4.prems"(1) have "list_all sizes_known (sort_key entry_name items)"
    by (simp add: list_all_sort_key)
  note ih = "4.IH" [OF this]
  obtain ch ex where r: "scan_items (sort_key entry_name items) rel patterns = (ch, ex)"
    by (cases "scan_items (sort_key entry_name items) rel patterns")
  with "4.prems"(2) ih have "ex = None" "t = Directory n (rel_str rel) ch None"
    by (auto simp: finish_cases)
  with ih r show ?case by simp
next
  case (5 rel patterns)
  show ?case by simp
next
  case (6 item rest rel patterns)
  from "6.prems" have item: "sizes_known item" and rest: "list_all sizes_known rest"
    by simp_all
  from sizes_known_ignore [OF item] obtain b
    where si: "should_ignore item (rel @ [entry_name item]) patterns = Inr b" by blast
  from sizes_known_is_dir [OF item] obtain d where isd: "is_dir item = Inr d" by blast
  show ?case
  proof (cases b)
    case True
    from "6.IH"(1) [OF si True rest] si True show ?thesis by simp
  next
    case nb: False
    show ?thesis
    proof (cases d)
      case True
      show ?thesis
      proof (cases "scan_directory item (rel @ [entry_name item]) patterns")
        case (Inl e)
        then have "e \<noteq> PermissionError"
          using scan_directory_not_permission [of item "rel @ [entry_name item]" patterns]
          by auto
        with Inl si nb isd True show ?thesis by simp
      next
        case (Inr child)
        from "6.IH"(2) [OF si nb isd True item Inr]
        have c: "tree_files child
                 = map as_text (kept_files item (rel @ [entry_name item]) patterns)" .
        have k: "kept_items (item # rest) rel patterns
                 = kept_files item (rel @ [entry_name item]) patterns
                   @ kept_items rest rel patterns"
          using si nb isd True by (cases item) simp_all
        from "6.IH"(3) [OF si nb isd True Inr rest] c si nb isd True Inr show ?thesis
          unfolding k by (auto split: prod.splits)
      qed
    next
      case nd: False
      with isd obtain n st where it: "item = FileEntry n st" by (cases item) auto
      with item obtain sz where st: "st = Inr sz" by (cases st) auto
      from "6.IH"(4) [OF si nb isd nd it st rest] si nb it st show ?thesis
        by (auto simp: as_text_def split: prod.splits)
    qed
  qed
qed

lemma sum_sizes_concat:
  "sum_list (map snd (concat (map tree_files cs)))
   = sum_list (map (\<lambda>c. sum_list (map snd (tree_files c))) cs)"
  by (induction cs) auto

lemma total_size_count_items:
  "total_size (count_items lower t st) = total_size st + sum_list (map snd (tree_files t))"
proof (induction t arbitrary: st)
  case (File name path sz)
  show ?case by (simp add: Let_def)
next
  case (Directory name path children err)
  show ?case
    by (simp add: Let_def sum_sizes_concat
        fold_counts [where g = "\<lambda>c. sum_list (map snd (tree_files c))", OF Directory.IH])
qed

lemma kept_files_below:
  "list_all valid_name rel \<Longrightarrow> names_ok e \<Longrightarrow> (segs, sz) \<in> set (kept_files e rel patterns)
     \<Longrightarrow> list_all valid_name segs \<and> (\<exists>r. segs = rel @ r \<and> r \<noteq> [])"
  "list_all valid_name rel \<Longrightarrow> list_all (\<lambda>i. valid_name (entry_name i) \<and> names_ok i) items
     \<Longrightarrow> (segs, sz) \<in> set (kept_items items rel patterns)
     \<Longrightarrow> list_all valid_name segs \<and> (\<exists>i \<in> set items. \<exists>r. segs = rel @ entry_name i # r)"
proof (induction e rel patterns and items rel patterns rule: kept_files_kept_items.induct)
  case (1 n st rel patterns)
  then show ?case by simp
next
  case (2 n e rel patterns)
  then show ?case by simp
next
  case (3 n e rel patterns)
  then show ?case by simp
next
  case (4 n items rel patterns)
  from "4.prems" have "list_all (\<lambda>i. valid_name (entry_name i) \<and> names_ok i)
                         (sort_key entry_name items)"
    by (simp add: list_all_sort_key)
  from "4.IH" [OF "4.prems"(1) this] "4.prems"(3) show ?case by auto
next
  case (5 rel patterns)
  then show ?case by simp
next
  case (6 item rest rel patterns)
  from "6.prems" have vi: "valid_name (entry_name item)" "names_ok item"
    and vr: "list_all (\<lambda>i. valid_name (entry_name i) \<and> names_ok i) rest"
    by simp_all
  from "6.prems"(3) consider
      (here) "should_ignore item (rel @ [entry_name item]) patterns = Inr False"
        "(segs, sz) \<in> set (case item of
              FileEntry m st \<Rightarrow> (case st of Inl e \<Rightarrow> [] | Inr sz \<Rightarrow> [(rel @ [m], sz)])
            | DirEntry m sub \<Rightarrow> kept_files item (rel @ [entry_name item]) patterns
            | FailDir m e \<Rightarrow> []
            | Blocked m e \<Rightarrow> [])"
    | (later) "(segs, sz) \<in> set (kept_items rest rel patterns)"
    by (auto split: if_splits)
  then show ?case
  proof cases
    case here
    show ?thesis
    proof (cases item)
      case (FileEntry m st)
      with here vi "6.prems"(1) show ?thesis
        by (auto split: sum.splits)
    next
      case (DirEntry m sub)
      with here have "(segs, sz) \<in> set (kept_files item (rel @ [entry_name item]) patterns)"
        by simp
      from "6.IH"(1) [OF here(1) DirEntry _ vi(2) this] "6.prems"(1) vi(1)
      show ?thesis by auto
    next
      case (FailDir m e)
      with here show ?thesis by simp
    next
      case (Blocked m e)
      with here show ?thesis by simp
    qed
  next
    case later
    from "6.IH"(2) [OF "6.prems"(1) vr later] show ?thesis by auto
  qed
qed

lemma distinct_names_insort:
  "distinct (map entry_name (insort_key entry_name x xs))
   = (entry_name x \<notin> entry_name ` set xs \<and> distinct (map entry_name xs))"
  by (induction xs) (auto simp: set_insort_key)

lemma distinct_names_sort:
  "distinct (map entry_name (sort_key entry_name xs)) = distinct (map entry_name xs)"
  by (induction xs) (auto simp: distinct_names_insort)

lemma kept_items_Cons:
  "kept_items (item # rest) rel patterns
   = kept_items [item] rel patterns @ kept_items rest rel patterns"
  by simp

lemma kept_distinct:
  "list_all valid_name rel \<Longrightarrow> names_ok e \<Longrightarrow> siblings_distinct e
     \<Longrightarrow> distinct (map fst (kept_files e rel patterns))"
  "list_all valid_name rel \<Longrightarrow> list_all (\<lambda>i. valid_name (entry_name i) \<and> names_ok i) items
     \<Longrightarrow> distinct (map entry_name items) \<Longrightarrow> list_all siblings_distinct items
     \<Longrightarrow> distinct (map fst (kept_items items rel patterns))"
proof (induction e rel patterns and items rel patterns rule: kept_files_kept_items.induct)
  case (1 n st rel patterns)
  show ?case by simp
next
  case (2 n e rel patterns)
  show ?case by simp
next
  case (3 n e rel patterns)
  show ?case by simp
next
  case (4 n items rel patterns)
  from "4.prems" have
    "list_all (\<lambda>i. valid_name (entry_name i) \<and> names_ok i) (sort_key entry_name items)"
    "distinct (map entry_name (sort_key entry_name items))"
    "list_all siblings_distinct (sort_key entry_name items)"
    by (simp_all add: list_all_sort_key distinct_names_sort)
  from "4.IH" [OF "4.prems"(1) this] show ?case by simp
next
  case (5 rel patterns)
  show ?case by simp
next
  case (6 item rest rel patterns)
  from "6.prems" have vi: "valid_name (entry_name item)" "names_ok item" "siblings_distinct item"
    and vr: "list_all (\<lambda>i. valid_name (entry_name i) \<and> names_ok i) rest"
      "distinct (map entry_name rest)" "list_all siblings_distinct rest"
    and fresh: "entry_name item \<notin> entry_name ` set rest"
    by simp_all
  have one: "list_all (\<lambda>i. valid_name (entry_name i) \<and> names_ok i) [item]"
    using vi by simp
  have first: "distinct (map fst (kept_items [item] rel patterns))"
  proof (cases "should_ignore item (rel @ [entry_name item]) patterns = Inr False")
    case False
    then show ?thesis by simp
  next
    case keep: True
    show ?thesis
    proof (cases item)
      case (FileEntry m st)
      then show ?thesis by (simp split: sum.splits)
    next
      case (DirEntry m sub)
      from "6.IH"(1) [OF keep DirEntry _ vi(2,3)] "6.prems"(1) vi(1) keep DirEntry
      show ?thesis by simp
    next
      case (FailDir m e)
      then show ?thesis by simp
    next
      case (Blocked m e)
      then show ?thesis by simp
    qed
  qed
  have others: "distinct (map fst (kept_items rest rel patterns))"
    using "6.IH"(2) [OF "6.prems"(1) vr] .
  have apart: "fst ` set (kept_items [item] rel patterns)
               \<inter> fst ` set (kept_items rest rel patterns) = {}"
  proof (rule ccontr)
    assume "\<not> ?thesis"
    then obtain segs sz sz' where
      a: "(segs, sz) \<in> set (kept_items [item] rel patterns)" and
      b: "(segs, sz') \<in> set (kept_items rest rel patterns)"
      by fastforce
    from kept_files_below(2) [OF "6.prems"(1) one a]
    obtain r where "segs = rel @ entry_name item # r" by auto
    moreover from kept_files_below(2) [OF "6.prems"(1) vr(1) b]
    obtain j r' where "j \<in> set rest" "segs = rel @ entry_name j # r'" by auto
    ultimately have "entry_name item = entry_name j" by simp
    with \<open>j \<in> set rest\<close> fresh show False by blast
  qed
  from first others apart show ?case
    by (subst kept_items_Cons) (simp only: map_append distinct_append set_map)
qed

lemma rel_str_inj:
  assumes "list_all valid_name a" and "list_all valid_name b" and "rel_str a = rel_str b"
  shows "a = b"
proof -
  have "a = path_parts (rel_str a)"
    using assms(1) by (simp only: path_parts_rel_str)
  also have "\<dots> = path_parts (rel_str b)"
    by (simp only: assms(3))
  also have "\<dots> = b"
    using assms(2) by (simp only: path_parts_rel_str)
  finally show ?thesis .
qed

text \<open>
  Claim C8, as amended: when every entry under the root can be inspected, the size
  query of every file succeeds and the scan returns a tree, the File nodes of the tree are, one for one and in the order
  of the walk, the files that no pattern ignores and that lie in no ignored directory
  and in no directory whose listing is denied, each with its relative path and its size,
  and \<open>total_size\<close> is the sum of the sizes of exactly these files. Where the names
  of the entries are well formed and differ within each directory, no path occurs twice
  among them: the tree has exactly one File node for each such file.
\<close>

theorem C8_kept_files_once:
  assumes "sizes_known root" and "scan root patterns = Inr t"
  shows "tree_files t = map as_text (kept_files root [] patterns)
         \<and> total_size (get_stats lower t) = sum_list (map snd (kept_files root [] patterns))
         \<and> (names_ok root \<and> siblings_distinct root
              \<longrightarrow> distinct (map fst (kept_files root [] patterns))
                  \<and> distinct (map fst (tree_files t)))"
proof -
  from assms have a: "tree_files t = map as_text (kept_files root [] patterns)"
    using scan_kept_files(1) [of root "[]" patterns t] by (simp add: scan_def)
  have "total_size (get_stats lower t) = sum_list (map snd (tree_files t))"
    by (simp add: get_stats_def initial_stats_def total_size_count_items)
  then have b: "total_size (get_stats lower t) = sum_list (map snd (kept_files root [] patterns))"
    by (simp add: a as_text_def comp_def)
  have c: "distinct (map fst (kept_files root [] patterns)) \<and> distinct (map fst (tree_files t))"
    if ok: "names_ok root \<and> siblings_distinct root"
  proof -
    let ?K = "kept_files root [] patterns"
    from ok have d: "distinct (map fst ?K)"
      using kept_distinct(1) [of "[]" root patterns] by simp
    have v: "list_all valid_name segs" if "segs \<in> set (map fst ?K)" for segs
      using that ok kept_files_below(1) [of "[]" root segs _ patterns] by auto
    have "inj_on rel_str (set (map fst ?K))"
    proof (rule inj_onI)
      fix x y
      assume "x \<in> set (map fst ?K)" and "y \<in> set (map fst ?K)" and "rel_str x = rel_str y"
      then show "x = y" by (intro rel_str_inj v)
    qed
    with d have "distinct (map rel_str (map fst ?K))"
      by (simp only: distinct_map)
    moreover have "map fst (tree_files t) = map rel_str (map fst ?K)"
      by (simp add: a as_text_def comp_def)
    ultimately show ?thesis using d by simp
  qed
  from a b c show ?thesis by blast
qed

text \<open>
  The theorem on the scenario of the specification: \<^verbatim>\<open>a.txt\<close> is the one file kept.
\<close>

theorem C8_witness:
  "sizes_known scenario_root \<and> names_ok scenario_root \<and> siblings_distinct scenario_root
   \<and> scan scenario_root [''b/''] = Inr scenario_tree
   \<and> kept_files scenario_root [] [''b/''] = [([''a.txt''], 10)]
   \<and> tree_files scenario_tree = [(''a.txt'', 10)]
   \<and> total_size (get_stats ascii_lower scenario_tree) = 10"
proof -
  have s: "sizes_known scenario_root"
    by (simp add: scenario_root_def)
  have n: "names_ok scenario_root \<and> siblings_distinct scenario_root"
    by (simp add: scenario_root_def valid_name_def)
  have k: "kept_files scenario_root [] [''b/''] = [([''a.txt''], 10)]"
    by (simp add: scenario_root_def scanner_defs)
  from C8_kept_files_once [OF s scenario_scan, of ascii_lower] show ?thesis
    by (simp add: s n k scenario_scan as_text_def rel_str_def)
qed

text \<open>
  Claim C8, as stated, fails where the size query of an entry, or its inspection,
  raises a permission error: the handler of the enclosing directory ends its listing there. The file
  \<^verbatim>\<open>notes.txt\<close> is counted although its directory carries the marker, and the file
  \<^verbatim>\<open>todo.txt\<close>, which no pattern matches, has no node.
\<close>

theorem C8_counterexample:
  "scan (DirEntry ''home''
          [FileEntry ''notes.txt'' (Inr 3), FileEntry ''secret'' (Inl PermissionError),
           FileEntry ''todo.txt'' (Inr 4)]) [''*.bak'']
     = Inr (Directory ''home'' ''.'' [File ''notes.txt'' ''notes.txt'' 3]
             (Some ''Permission denied''))
   \<and> should_ignore (FileEntry ''todo.txt'' (Inr 4)) [''todo.txt''] [''*.bak''] = Inr False
   \<and> total_size (get_stats ascii_lower (Directory ''home'' ''.'' [File ''notes.txt'' ''notes.txt'' 3]
                                (Some ''Permission denied''))) = 3
   \<and> scan (DirEntry ''home''
          [FileEntry ''notes.txt'' (Inr 3), Blocked ''secret'' PermissionError,
           FileEntry ''todo.txt'' (Inr 4)]) [''*.bak'']
     = Inr (Directory ''home'' ''.'' [File ''notes.txt'' ''notes.txt'' 3]
             (Some ''Permission denied''))"
  by (simp add: scanner_defs) (simp add: stats_defs)

end
